theory Spec2Isabelle
  imports Main "HOL-Library.Sublist"
begin

section \<open>The Memory class of src/memory.js\<close>

text \<open>
  The class keeps \<open>nodes\<close>, an array of node objects in creation order, and
  \<open>usedAddresses\<close>, a set of address strings. A node object has the three coordinates
  \<open>xx\<close>, \<open>yy\<close>, \<open>zz\<close> and the field \<open>value\<close>, an array of row arrays. The field is
  called \<open>val\<close> below, the source's name being a keyword of the theory language.

  Modelling decisions:
  \<^item> Coordinates and indices are integers (\<open>int\<close>), negative ones included; they stand
    for the integers that a JavaScript number holds exactly, which a template string
    prints with all their digits. Array lengths are natural numbers. The memory of
    the engine is outside the model.
  \<^item> A cell holds a number or \<open>undefined\<close>; the class stores, copies and compares cells and
    never calculates with them, so a number is an \<open>int\<close>. An empty slot of an array (read
    as \<open>undefined\<close> by the class) is \<open>Undefined\<close> too.
  \<^item> A node reference is the node's position in \<open>nodes\<close>: nodes are appended and never
    removed, so a position names the same node object for good.
  \<^item> The class is embedded twice. First with arrays as values: a grid is the list of
    its rows and a row the list of its cells, with no bound on their lengths. This is
    what the class does to a grid no array of which is reachable on two paths, as long
    as no array reaches the greatest length \<open>2^32 - 1\<close>. It is not the whole of it:
    \<open>setMatrix\<close> keeps the array it is given (\<open>node.value = matrix\<close>), so that rows which
    the caller shares stay shared, and \<open>Array(n)\<close> throws for a length above the
    greatest one. The second embedding (arrays as objects, below) has node, outer array
    and rows as objects in a heap and that RangeError; the claims on growth and on the
    failures of \<open>set\<close> (C1, C4) are stated on it.
  \<^item> An exception is a value \<open>Inl e\<close>; a method that can both change the store and throw
    returns the outcome together with the store as it is when the method is left, so
    that what was written before a throw stays visible.
\<close>

subsection \<open>Data\<close>

datatype jsval = Undefined | Num int

type_synonym row = "jsval list"
type_synonym grid = "row list"

record node =
  xx :: int
  yy :: int
  zz :: int
  val :: grid

record store =
  nodes :: "node list"
  usedAddresses :: "string set"

text \<open>
  \<open>NotFound\<close> is \<open>new Error("Invalid address")\<close> and \<open>IndexOutOfBounds\<close> is
  \<open>new Error("Index out of bounds")\<close>, the two errors the class throws itself.
  \<open>TypeError\<close> and \<open>RangeError\<close> are thrown by the language: reading or writing a
  property of \<open>undefined\<close>, and \<open>Array(n)\<close> with a negative \<open>n\<close>.
\<close>

datatype error = NotFound | IndexOutOfBounds | TypeError | RangeError

text \<open>The constructor: no nodes, no addresses.\<close>

definition Memory :: store where
  "Memory = \<lparr>nodes = [], usedAddresses = {}\<rparr>"

subsection \<open>Addresses\<close>

definition digit_char :: "nat \<Rightarrow> char" where
  "digit_char d = ''0123456789'' ! d"

function nat_str :: "nat \<Rightarrow> string" where
  "nat_str n = (if n < 10 then [digit_char n] else nat_str (n div 10) @ [digit_char (n mod 10)])"
  by pat_completeness auto
termination
  by (relation "measure (\<lambda>n. n)") auto

definition int_str :: "int \<Rightarrow> string" where
  "int_str i = (if i < 0 then CHR ''-'' # nat_str (nat (- i)) else nat_str (nat i))"

text \<open>\<open>generateAddress\<close>: the template string \<open>`${xx},${yy},${zz}`\<close>.\<close>

definition generateAddress :: "int \<Rightarrow> int \<Rightarrow> int \<Rightarrow> string" where
  "generateAddress x y z = int_str x @ '','' @ int_str y @ '','' @ int_str z"

subsection \<open>Lookup and creation\<close>

text \<open>\<open>Array.prototype.find\<close> returns the first element that satisfies the predicate.\<close>

fun find_first :: "('a \<Rightarrow> bool) \<Rightarrow> 'a list \<Rightarrow> nat option" where
  "find_first P [] = None"
| "find_first P (a # as) = (if P a then Some 0 else map_option Suc (find_first P as))"

definition findNode :: "store \<Rightarrow> int \<Rightarrow> int \<Rightarrow> int \<Rightarrow> nat option" where
  "findNode s x y z = find_first (\<lambda>n. xx n = x \<and> yy n = y \<and> zz n = z) (nodes s)"

text \<open>
  \<open>Array.from({ length: rows }, () => Array(cols).fill(0))\<close>: a length that is not positive
  gives the empty array without a call of the function; otherwise each call builds a
  fresh row, and \<open>Array(cols)\<close> throws a RangeError when \<open>cols\<close> is negative.
\<close>

definition new_grid :: "int \<Rightarrow> int \<Rightarrow> error + grid" where
  "new_grid rows cols =
     (if rows \<le> 0 then Inr []
      else if cols < 0 then Inl RangeError
      else Inr (replicate (nat rows) (replicate (nat cols) (Num 0))))"

definition createNodeIfNeeded ::
  "store \<Rightarrow> int \<Rightarrow> int \<Rightarrow> int \<Rightarrow> int \<Rightarrow> int \<Rightarrow> (error + nat) \<times> store" where
  "createNodeIfNeeded s x y z rows cols =
     (case findNode s x y z of
        Some i \<Rightarrow> (Inr i, s)
      | None \<Rightarrow>
          (case new_grid rows cols of
             Inl e \<Rightarrow> (Inl e, s)
           | Inr g \<Rightarrow>
               (Inr (length (nodes s)),
                s\<lparr>nodes := nodes s @ [\<lparr>xx = x, yy = y, zz = z, val = g\<rparr>],
                  usedAddresses := insert (generateAddress x y z) (usedAddresses s)\<rparr>)))"

text \<open>The assignment \<open>node.value = g\<close> through a node reference.\<close>

definition set_val :: "store \<Rightarrow> nat \<Rightarrow> grid \<Rightarrow> store" where
  "set_val s i g = s\<lparr>nodes := (nodes s)[i := (nodes s ! i)\<lparr>val := g\<rparr>]\<rparr>"

subsection \<open>Reading\<close>

definition getAllData :: "store \<Rightarrow> int \<Rightarrow> int \<Rightarrow> int \<Rightarrow> error + grid" where
  "getAllData s x y z =
     (case findNode s x y z of
        None \<Rightarrow> Inl NotFound
      | Some i \<Rightarrow> Inr (val (nodes s ! i)))"

definition get :: "store \<Rightarrow> int \<Rightarrow> int \<Rightarrow> int \<Rightarrow> int \<Rightarrow> int \<Rightarrow> error + jsval" where
  "get s x y z rowIndex colIndex =
     (case findNode s x y z of
        None \<Rightarrow> Inl NotFound
      | Some i \<Rightarrow>
          (let g = val (nodes s ! i) in
           if rowIndex \<ge> 0 \<and> rowIndex < int (length g) \<and>
              colIndex \<ge> 0 \<and> colIndex < int (length (g ! nat rowIndex))
           then Inr (g ! nat rowIndex ! nat colIndex)
           else Inl IndexOutOfBounds))"

definition getDimensions :: "store \<Rightarrow> int \<Rightarrow> int \<Rightarrow> int \<Rightarrow> nat \<times> nat" where
  "getDimensions s x y z =
     (case findNode s x y z of
        None \<Rightarrow> (0, 0)
      | Some i \<Rightarrow>
          (let rows = length (val (nodes s ! i));
               cols = (if rows > 0 then length (val (nodes s ! i) ! 0) else 0)
           in (rows, cols)))"

subsection \<open>Writing\<close>

definition setMatrix :: "store \<Rightarrow> int \<Rightarrow> int \<Rightarrow> int \<Rightarrow> grid \<Rightarrow> (error + unit) \<times> store" where
  "setMatrix s x y z matrix =
     (let rows = length matrix;
          cols = (if rows > 0 then length (matrix ! 0) else 0)
      in case createNodeIfNeeded s x y z (int rows) (int cols) of
           (Inl e, s') \<Rightarrow> (Inl e, s')
         | (Inr i, s') \<Rightarrow> (Inr (), set_val s' i matrix))"

text \<open>
  The first loop of \<open>expandMatrixIfNeeded\<close>:
  \<open>while (node.value.length <= rowIndex) node.value.push(Array(currentCols).fill(0))\<close>.
\<close>

function push_rows :: "grid \<Rightarrow> int \<Rightarrow> nat \<Rightarrow> grid" where
  "push_rows g rowIndex currentCols =
     (if int (length g) \<le> rowIndex
      then push_rows (g @ [replicate currentCols (Num 0)]) rowIndex currentCols
      else g)"
  by pat_completeness auto
termination
  by (relation "measure (\<lambda>(g, rowIndex, currentCols). nat (rowIndex + 1 - int (length g)))") auto

text \<open>The inner loop: \<open>while (node.value[r].length <= colIndex) node.value[r].push(0)\<close>.\<close>

function push_cols :: "row \<Rightarrow> int \<Rightarrow> row" where
  "push_cols rw colIndex =
     (if int (length rw) \<le> colIndex then push_cols (rw @ [Num 0]) colIndex else rw)"
  by pat_completeness auto
termination
  by (relation "measure (\<lambda>(rw, colIndex). nat (colIndex + 1 - int (length rw)))") auto

text \<open>The loop over the rows: \<open>for (let r = 0; r < node.value.length; r++)\<close>.\<close>

function expand_cols :: "grid \<Rightarrow> nat \<Rightarrow> int \<Rightarrow> grid" where
  "expand_cols g r colIndex =
     (if r < length g then expand_cols (g[r := push_cols (g ! r) colIndex]) (r + 1) colIndex
      else g)"
  by pat_completeness auto
termination
  by (relation "measure (\<lambda>(g, r, colIndex). length g - r)") auto

text \<open>
  \<open>expandMatrixIfNeeded\<close> on the node's grid. \<open>node.value[0].length\<close> after the first
  loop throws a TypeError when the grid is still empty, which needs a negative
  \<open>rowIndex\<close>; nothing has been written at that point.
\<close>

definition expandMatrixIfNeeded :: "grid \<Rightarrow> int \<Rightarrow> int \<Rightarrow> error + grid" where
  "expandMatrixIfNeeded g rowIndex colIndex =
     (let currentRows = length g;
          currentCols = (if currentRows > 0 then length (g ! 0) else 0);
          g1 = push_rows g rowIndex currentCols
      in case g1 of
           [] \<Rightarrow> Inl TypeError
         | row0 # _ \<Rightarrow>
             (let updatedCols = length row0
              in if colIndex \<ge> int updatedCols then Inr (expand_cols g1 0 colIndex)
                 else Inr g1))"

text \<open>
  The assignment \<open>a[colIndex] = v\<close> on a row array: inside the array it replaces the
  element; at or beyond the length it extends the array, the slots between being
  empty; a negative \<open>colIndex\<close> is no index, the assignment defines a property of that
  name on the array object and leaves elements and length as they are (no method of
  the class reads such a property, and the model does not record it).
\<close>

definition store_elem :: "row \<Rightarrow> int \<Rightarrow> jsval \<Rightarrow> row" where
  "store_elem rw colIndex v =
     (if colIndex < 0 then rw
      else if nat colIndex < length rw then rw[nat colIndex := v]
      else rw @ replicate (nat colIndex - length rw) Undefined @ [v])"

text \<open>
  \<open>node.value[rowIndex][colIndex] = newValue\<close>: \<open>node.value[rowIndex]\<close> is \<open>undefined\<close>
  for a \<open>rowIndex\<close> that is no index of the grid, and the assignment then throws a
  TypeError.
\<close>

definition store_cell :: "grid \<Rightarrow> int \<Rightarrow> int \<Rightarrow> jsval \<Rightarrow> error + grid" where
  "store_cell g rowIndex colIndex newValue =
     (if 0 \<le> rowIndex \<and> nat rowIndex < length g
      then Inr (g[nat rowIndex := store_elem (g ! nat rowIndex) colIndex newValue])
      else Inl TypeError)"

text \<open>
  The two statements of \<open>set\<close> after the node is known. The expansion has been written
  to the node when the assignment throws.
\<close>

definition expand_and_store ::
  "store \<Rightarrow> nat \<Rightarrow> int \<Rightarrow> int \<Rightarrow> jsval \<Rightarrow> (error + unit) \<times> store" where
  "expand_and_store s i rowIndex colIndex newValue =
     (case expandMatrixIfNeeded (val (nodes s ! i)) rowIndex colIndex of
        Inl e \<Rightarrow> (Inl e, s)
      | Inr g \<Rightarrow>
          (case store_cell g rowIndex colIndex newValue of
             Inl e \<Rightarrow> (Inl e, set_val s i g)
           | Inr g' \<Rightarrow> (Inr (), set_val s i g')))"

definition set_cell ::
  "store \<Rightarrow> int \<Rightarrow> int \<Rightarrow> int \<Rightarrow> int \<Rightarrow> int \<Rightarrow> jsval \<Rightarrow> (error + unit) \<times> store" where
  "set_cell s x y z rowIndex colIndex newValue =
     (case findNode s x y z of
        None \<Rightarrow>
          (case createNodeIfNeeded s x y z (rowIndex + 1) (colIndex + 1) of
             (Inl e, s') \<Rightarrow> (Inl e, s')
           | (Inr i, s') \<Rightarrow> expand_and_store s' i rowIndex colIndex newValue)
      | Some i \<Rightarrow> expand_and_store s i rowIndex colIndex newValue)"

subsection \<open>The update sweep\<close>

text \<open>\<open>for (let c = 0; c < node.value[r].length; c++) node.value[r][c] = 1\<close>.\<close>

function update_row :: "row \<Rightarrow> nat \<Rightarrow> row" where
  "update_row rw c = (if c < length rw then update_row (rw[c := Num 1]) (c + 1) else rw)"
  by pat_completeness auto
termination
  by (relation "measure (\<lambda>(rw, c). length rw - c)") auto

text \<open>\<open>for (let r = 0; r < node.value.length; r++)\<close> around it.\<close>

function update_grid :: "grid \<Rightarrow> nat \<Rightarrow> grid" where
  "update_grid g r =
     (if r < length g then update_grid (g[r := update_row (g ! r) 0]) (r + 1) else g)"
  by pat_completeness auto
termination
  by (relation "measure (\<lambda>(g, r). length g - r)") auto

text \<open>\<open>for (const node of this.nodes)\<close>, from the first node to the last.\<close>

function update_from :: "store \<Rightarrow> nat \<Rightarrow> store" where
  "update_from s i =
     (if i < length (nodes s)
      then update_from (set_val s i (update_grid (val (nodes s ! i)) 0)) (i + 1)
      else s)"
  by pat_completeness auto
termination
  by (relation "measure (\<lambda>(s, i). length (nodes s) - i)") (auto simp: set_val_def)

definition update :: "store \<Rightarrow> store" where
  "update s = update_from s 0"

text \<open>
  The order of the sweep, following the spec's words ("every cell of every node, in
  node-enumeration order, row-major within each node"): \<open>assign_one\<close> is the single
  assignment \<open>node.value[r][c] = 1\<close> on node \<open>i\<close>, and \<open>cells_row_major\<close> lists the cells
  (node, row, column) of a store in that order. They are compared with \<open>update\<close> below.
\<close>

definition assign_one :: "store \<Rightarrow> nat \<times> nat \<times> nat \<Rightarrow> store" where
  "assign_one s p =
     (case p of (i, r, c) \<Rightarrow>
        set_val s i ((val (nodes s ! i))[r := (val (nodes s ! i) ! r)[c := Num 1]]))"

definition cells_row_major :: "store \<Rightarrow> (nat \<times> nat \<times> nat) list" where
  "cells_row_major s =
     concat (map (\<lambda>i.
       concat (map (\<lambda>r. map (\<lambda>c. (i, r, c)) [0..<length (val (nodes s ! i) ! r)])
                   [0..<length (val (nodes s ! i))]))
       [0..<length (nodes s)])"

subsection \<open>Calls\<close>

text \<open>
  The documented operations of the class as data, for statements about every operation
  and about sequences of calls. \<open>findNode\<close>, \<open>generateAddress\<close> and
  \<open>expandMatrixIfNeeded\<close> are the helpers these operations call;
  \<open>createNodeIfNeeded\<close>, which they call as well, is added as a call of its own
  further down.
\<close>

datatype op =
    OpSetMatrix int int int grid
  | OpGetAllData int int int
  | OpSet int int int int int jsval
  | OpGet int int int int int
  | OpGetDimensions int int int
  | OpUpdate

datatype result = RUnit | RGrid grid | RVal jsval | RDims nat nat

fun exec :: "store \<Rightarrow> op \<Rightarrow> (error + result) \<times> store" where
  "exec s (OpSetMatrix x y z m) = map_prod (map_sum id (\<lambda>_. RUnit)) id (setMatrix s x y z m)"
| "exec s (OpGetAllData x y z) = (map_sum id RGrid (getAllData s x y z), s)"
| "exec s (OpSet x y z r c v) = map_prod (map_sum id (\<lambda>_. RUnit)) id (set_cell s x y z r c v)"
| "exec s (OpGet x y z r c) = (map_sum id RVal (get s x y z r c), s)"
| "exec s (OpGetDimensions x y z) = (Inr (case getDimensions s x y z of (r, c) \<Rightarrow> RDims r c), s)"
| "exec s OpUpdate = (Inr RUnit, update s)"

text \<open>The calls that write to a given address: \<open>set\<close> and \<open>setMatrix\<close> on it.\<close>

fun writes_to :: "op \<Rightarrow> int \<Rightarrow> int \<Rightarrow> int \<Rightarrow> bool" where
  "writes_to (OpSetMatrix x y z m) a b c = (x = a \<and> y = b \<and> z = c)"
| "writes_to (OpSet x y z row col v) a b c = (x = a \<and> y = b \<and> z = c)"
| "writes_to (OpGetAllData x y z) a b c = False"
| "writes_to (OpGet x y z row col) a b c = False"
| "writes_to (OpGetDimensions x y z) a b c = False"
| "writes_to OpUpdate a b c = False"


subsection \<open>Shapes\<close>

text \<open>Every row of the grid is as long as every other row.\<close>

definition rectangular :: "grid \<Rightarrow> bool" where
  "rectangular g = (\<forall>rw \<in> set g. \<forall>rw' \<in> set g. length rw = length rw')"

text \<open>
  The grid after the first loop of \<open>expandMatrixIfNeeded\<close>, written without recursion:
  what \<open>push_rows\<close> is shown to compute.
\<close>

definition rows_pushed :: "grid \<Rightarrow> int \<Rightarrow> grid" where
  "rows_pushed g r =
     g @ replicate (nat (r + 1 - int (length g)))
           (replicate (if g = [] then 0 else length (g ! 0)) (Num 0))"

declare nat_str.simps [simp del]
declare push_rows.simps [simp del]
declare push_cols.simps [simp del]
declare expand_cols.simps [simp del]
declare update_row.simps [simp del]
declare update_grid.simps [simp del]
declare update_from.simps [simp del]

subsection \<open>The sweep with a log of its writes\<close>

text \<open>
  The loops of \<open>update\<close> once more, now with a log of the assignments
  \<open>node.value[r][c] = 1\<close> in the order in which they are executed: each assignment
  appends the node's position in \<open>nodes\<close>, the row and the column to the log.
\<close>

function update_row_log ::
  "nat \<Rightarrow> nat \<Rightarrow> row \<Rightarrow> nat \<Rightarrow> (nat \<times> nat \<times> nat) list \<Rightarrow> row \<times> (nat \<times> nat \<times> nat) list" where
  "update_row_log i r rw c lg =
     (if c < length rw then update_row_log i r (rw[c := Num 1]) (c + 1) (lg @ [(i, r, c)])
      else (rw, lg))"
  by pat_completeness auto
termination
  by (relation "measure (\<lambda>(i, r, rw, c, lg). length rw - c)") auto

function update_grid_log ::
  "nat \<Rightarrow> grid \<Rightarrow> nat \<Rightarrow> (nat \<times> nat \<times> nat) list \<Rightarrow> grid \<times> (nat \<times> nat \<times> nat) list" where
  "update_grid_log i g r lg =
     (if r < length g
      then (case update_row_log i r (g ! r) 0 lg of
              (rw, lg') \<Rightarrow> update_grid_log i (g[r := rw]) (r + 1) lg')
      else (g, lg))"
  by pat_completeness auto
termination
  by (relation "measure (\<lambda>(i, g, r, lg). length g - r)") auto

function update_from_log ::
  "store \<Rightarrow> nat \<Rightarrow> (nat \<times> nat \<times> nat) list \<Rightarrow> store \<times> (nat \<times> nat \<times> nat) list" where
  "update_from_log s i lg =
     (if i < length (nodes s)
      then (case update_grid_log i (val (nodes s ! i)) 0 lg of
              (g, lg') \<Rightarrow> update_from_log (set_val s i g) (i + 1) lg')
      else (s, lg))"
  by pat_completeness auto
termination
  by (relation "measure (\<lambda>(s, i, lg). length (nodes s) - i)") (auto simp: set_val_def)

definition update_log :: "store \<Rightarrow> store \<times> (nat \<times> nat \<times> nat) list" where
  "update_log s = update_from_log s 0 []"

declare update_row_log.simps [simp del]
declare update_grid_log.simps [simp del]
declare update_from_log.simps [simp del]

subsection \<open>Calls of the whole interface\<close>

text \<open>
  The interface of the spec has \<open>createOrGet\<close> beside the documented operations, and
  \<open>createNodeIfNeeded\<close> is a method of the class like the others: a caller can call it
  directly. A call is one of the documented operations or a direct
  \<open>createNodeIfNeeded\<close>; \<open>step\<close> is the store after the call, and \<open>run_calls\<close> the store
  after a sequence of calls, in which a caller that catches an exception goes on with
  the store as the failed call left it. \<open>targets\<close> says whether the call is a \<open>set\<close>, a
  \<open>setMatrix\<close> or a direct \<open>createNodeIfNeeded\<close> on the address.
\<close>

datatype call = Call op | CallCreateNodeIfNeeded int int int int int

fun step :: "store \<Rightarrow> call \<Rightarrow> store" where
  "step s (Call p) = snd (exec s p)"
| "step s (CallCreateNodeIfNeeded x y z rows cols) = snd (createNodeIfNeeded s x y z rows cols)"

fun run_calls :: "store \<Rightarrow> call list \<Rightarrow> store" where
  "run_calls s [] = s"
| "run_calls s (c # cs) = run_calls (step s c) cs"

fun targets :: "call \<Rightarrow> int \<Rightarrow> int \<Rightarrow> int \<Rightarrow> bool" where
  "targets (Call p) a b c = writes_to p a b c"
| "targets (CallCreateNodeIfNeeded x y z rows cols) a b c = (x = a \<and> y = b \<and> z = c)"

subsection \<open>Arrays as objects\<close>

text \<open>
  In JavaScript an array is an object, and \<open>node.value\<close> and \<open>node.value[r]\<close> hold
  references. \<open>setMatrix\<close> stores the reference it is given (\<open>node.value = matrix\<close>), so
  the node's grid is the caller's array from then on, and where the caller has put one
  row array at two places of the matrix, a write to one of the two rows is a write to
  the other. The definitions above, in which a grid is the list of its cells, cannot
  tell such a grid from one with two equal rows. The class is therefore embedded a
  second time, with the arrays in a heap:

  \<^item> \<open>outer_arrays\<close> maps the reference of an outer array to its elements, which are
    references of rows; \<open>row_arrays\<close> maps the reference of a row to its cells. The two
    kinds of arrays have references of their own (a node's grid is an array of arrays
    of cells throughout the class).
  \<^item> \<open>outer_next\<close> and \<open>row_next\<close> are the references that the next array literal or
    \<open>Array(...)\<close> call receives; all references below them are allocated. Nothing is
    ever freed.
  \<^item> A node holds the reference of its outer array in \<open>rvalue\<close> (the field \<open>value\<close>).

  The names are those of the source with the suffix \<open>_ref\<close>. The caller's own array
  literals are \<open>new_row\<close> and \<open>new_outer\<close>. A matrix of another form (a row that is not
  an array of cells, a matrix that is one of its own rows) is outside the model.
\<close>

type_synonym ref = nat

record rnode =
  rxx :: int
  ryy :: int
  rzz :: int
  rvalue :: ref

record rstore =
  rnodes :: "rnode list"
  rusedAddresses :: "string set"
  outer_arrays :: "ref \<Rightarrow> ref list"
  row_arrays :: "ref \<Rightarrow> jsval list"
  outer_next :: ref
  row_next :: ref

text \<open>The constructor, on an empty heap.\<close>

definition Memory_ref :: rstore where
  "Memory_ref = \<lparr>rnodes = [], rusedAddresses = {}, outer_arrays = (\<lambda>_. []),
                  row_arrays = (\<lambda>_. []), outer_next = 0, row_next = 0\<rparr>"

text \<open>A new row array with the given cells, and a new outer array with the given rows.\<close>

definition new_row :: "rstore \<Rightarrow> row \<Rightarrow> ref \<times> rstore" where
  "new_row s rw =
     (row_next s, s\<lparr>row_arrays := (row_arrays s)(row_next s := rw), row_next := Suc (row_next s)\<rparr>)"

definition new_outer :: "rstore \<Rightarrow> ref list \<Rightarrow> ref \<times> rstore" where
  "new_outer s rs =
     (outer_next s,
      s\<lparr>outer_arrays := (outer_arrays s)(outer_next s := rs), outer_next := Suc (outer_next s)\<rparr>)"

text \<open>
  The length of an array is at most \<open>2^32 - 1\<close>, and its indices are the numbers below
  that: \<open>Array(n)\<close> and \<open>Array.from({ length: n }, ...)\<close> throw a RangeError for an \<open>n\<close>
  above it.
\<close>

definition max_length :: int where
  "max_length = 4294967295"

text \<open>
  \<open>Array.from({ length: rows }, () => Array(cols).fill(0))\<close>: the callback makes a new
  row for each of the \<open>rows\<close> positions, from the first. A length of zero or less gives
  the empty array without a call of the callback; a length above \<open>max_length\<close> is a
  RangeError before any row is made, and so is, in the first call of the callback, a
  \<open>cols\<close> that is negative or above \<open>max_length\<close>. Nothing is reachable from the store
  after the RangeError, and the store is returned as it was.
\<close>

fun new_rows :: "rstore \<Rightarrow> nat \<Rightarrow> nat \<Rightarrow> ref list \<times> rstore" where
  "new_rows s 0 cols = ([], s)"
| "new_rows s (Suc k) cols =
     (case new_row s (replicate cols (Num 0)) of
        (r, s1) \<Rightarrow> (case new_rows s1 k cols of (rs, s2) \<Rightarrow> (r # rs, s2)))"

definition new_grid_ref :: "rstore \<Rightarrow> int \<Rightarrow> int \<Rightarrow> (error + ref) \<times> rstore" where
  "new_grid_ref s rows cols =
     (if rows \<le> 0 then (case new_outer s [] of (a, s') \<Rightarrow> (Inr a, s'))
      else if rows > max_length then (Inl RangeError, s)
      else if cols < 0 \<or> cols > max_length then (Inl RangeError, s)
      else (case new_rows s (nat rows) (nat cols) of
              (rs, s1) \<Rightarrow> (case new_outer s1 rs of (a, s2) \<Rightarrow> (Inr a, s2))))"

definition findNode_ref :: "rstore \<Rightarrow> int \<Rightarrow> int \<Rightarrow> int \<Rightarrow> nat option" where
  "findNode_ref s x y z = find_first (\<lambda>n. rxx n = x \<and> ryy n = y \<and> rzz n = z) (rnodes s)"

definition createNodeIfNeeded_ref ::
  "rstore \<Rightarrow> int \<Rightarrow> int \<Rightarrow> int \<Rightarrow> int \<Rightarrow> int \<Rightarrow> (error + nat) \<times> rstore" where
  "createNodeIfNeeded_ref s x y z rows cols =
     (case findNode_ref s x y z of
        Some i \<Rightarrow> (Inr i, s)
      | None \<Rightarrow>
          (case new_grid_ref s rows cols of
             (Inl e, s') \<Rightarrow> (Inl e, s')
           | (Inr a, s') \<Rightarrow>
               (Inr (length (rnodes s')),
                s'\<lparr>rnodes := rnodes s' @ [\<lparr>rxx = x, ryy = y, rzz = z, rvalue = a\<rparr>],
                   rusedAddresses := insert (generateAddress x y z) (rusedAddresses s')\<rparr>)))"

text \<open>The assignment \<open>node.value = matrix\<close>: the node holds the reference it is given.\<close>

definition set_value :: "rstore \<Rightarrow> nat \<Rightarrow> ref \<Rightarrow> rstore" where
  "set_value s i a = s\<lparr>rnodes := (rnodes s)[i := (rnodes s ! i)\<lparr>rvalue := a\<rparr>]\<rparr>"

definition getAllData_ref :: "rstore \<Rightarrow> int \<Rightarrow> int \<Rightarrow> int \<Rightarrow> error + ref" where
  "getAllData_ref s x y z =
     (case findNode_ref s x y z of
        None \<Rightarrow> Inl NotFound
      | Some i \<Rightarrow> Inr (rvalue (rnodes s ! i)))"

definition get_ref :: "rstore \<Rightarrow> int \<Rightarrow> int \<Rightarrow> int \<Rightarrow> int \<Rightarrow> int \<Rightarrow> error + jsval" where
  "get_ref s x y z rowIndex colIndex =
     (case findNode_ref s x y z of
        None \<Rightarrow> Inl NotFound
      | Some i \<Rightarrow>
          (let g = outer_arrays s (rvalue (rnodes s ! i)) in
           if rowIndex \<ge> 0 \<and> rowIndex < int (length g) \<and>
              colIndex \<ge> 0 \<and> colIndex < int (length (row_arrays s (g ! nat rowIndex)))
           then Inr (row_arrays s (g ! nat rowIndex) ! nat colIndex)
           else Inl IndexOutOfBounds))"

text \<open>
  \<open>setMatrix\<close> with the reference of the caller's matrix: the node that
  \<open>createNodeIfNeeded\<close> returns (with a grid of zeros of its own, if it is new) is made to
  hold that reference.
\<close>

definition setMatrix_ref :: "rstore \<Rightarrow> int \<Rightarrow> int \<Rightarrow> int \<Rightarrow> ref \<Rightarrow> (error + unit) \<times> rstore" where
  "setMatrix_ref s x y z matrix =
     (let rows = length (outer_arrays s matrix);
          cols = (if rows > 0 then length (row_arrays s (outer_arrays s matrix ! 0)) else 0)
      in case createNodeIfNeeded_ref s x y z (int rows) (int cols) of
           (Inl e, s') \<Rightarrow> (Inl e, s')
         | (Inr i, s') \<Rightarrow> (Inr (), set_value s' i matrix))"

text \<open>
  \<open>node.value.push(Array(currentCols).fill(0))\<close>: a new row of zeros, appended to the
  outer array \<open>a\<close>; then the loop \<open>while (node.value.length <= rowIndex)\<close> around it.
  \<open>push\<close> takes an array up to \<open>max_length\<close> elements and no further; the loops of the
  expansion are embedded without that bound, which indices below \<open>max_length\<close> do not
  reach, and the claims on \<open>set\<close> are stated for such indices.
\<close>

definition push_new_row :: "rstore \<Rightarrow> ref \<Rightarrow> nat \<Rightarrow> rstore" where
  "push_new_row s a currentCols =
     (case new_row s (replicate currentCols (Num 0)) of
        (r, s1) \<Rightarrow> s1\<lparr>outer_arrays := (outer_arrays s1)(a := outer_arrays s1 a @ [r])\<rparr>)"

function push_rows_ref :: "rstore \<Rightarrow> ref \<Rightarrow> int \<Rightarrow> nat \<Rightarrow> rstore" where
  "push_rows_ref s a rowIndex currentCols =
     (if int (length (outer_arrays s a)) \<le> rowIndex
      then push_rows_ref (push_new_row s a currentCols) a rowIndex currentCols
      else s)"
  by pat_completeness auto
termination
  by (relation "measure (\<lambda>(s, a, rowIndex, currentCols).
                   nat (rowIndex + 1 - int (length (outer_arrays s a))))")
     (auto simp: push_new_row_def new_row_def)

text \<open>
  The loop over the rows, \<open>for (let r = 0; r < node.value.length; r++)\<close>, with the inner
  loop \<open>push_cols\<close> on the row array that \<open>node.value[r]\<close> refers to. A row that stands at
  two positions is visited twice.
\<close>

function expand_cols_ref :: "rstore \<Rightarrow> ref \<Rightarrow> nat \<Rightarrow> int \<Rightarrow> rstore" where
  "expand_cols_ref s a r colIndex =
     (if r < length (outer_arrays s a)
      then expand_cols_ref
             (s\<lparr>row_arrays := (row_arrays s)
                   (outer_arrays s a ! r := push_cols (row_arrays s (outer_arrays s a ! r)) colIndex)\<rparr>)
             a (r + 1) colIndex
      else s)"
  by pat_completeness auto
termination
  by (relation "measure (\<lambda>(s, a, r, colIndex). length (outer_arrays s a) - r)") auto

text \<open>
  \<open>expandMatrixIfNeeded\<close> on the outer array \<open>a\<close> of the node. With no row after the first
  loop, \<open>node.value[0].length\<close> is a TypeError, thrown with the rows pushed so far.
\<close>

definition expandMatrixIfNeeded_ref :: "rstore \<Rightarrow> ref \<Rightarrow> int \<Rightarrow> int \<Rightarrow> (error + unit) \<times> rstore" where
  "expandMatrixIfNeeded_ref s a rowIndex colIndex =
     (let currentRows = length (outer_arrays s a);
          currentCols = (if currentRows > 0 then length (row_arrays s (outer_arrays s a ! 0)) else 0);
          s1 = push_rows_ref s a rowIndex currentCols
      in case outer_arrays s1 a of
           [] \<Rightarrow> (Inl TypeError, s1)
         | r0 # _ \<Rightarrow>
             (let updatedCols = length (row_arrays s1 r0)
              in if colIndex \<ge> int updatedCols then (Inr (), expand_cols_ref s1 a 0 colIndex)
                 else (Inr (), s1)))"

text \<open>
  The assignment \<open>node.value[rowIndex][colIndex] = newValue\<close>, on the row array that
  \<open>node.value[rowIndex]\<close> refers to. Without such a row (a negative index, or one at or
  beyond the length) \<open>node.value[rowIndex]\<close> is \<open>undefined\<close> and the assignment is a
  TypeError.
\<close>

definition store_cell_ref :: "rstore \<Rightarrow> ref \<Rightarrow> int \<Rightarrow> int \<Rightarrow> jsval \<Rightarrow> (error + unit) \<times> rstore" where
  "store_cell_ref s a rowIndex colIndex newValue =
     (if 0 \<le> rowIndex \<and> nat rowIndex < length (outer_arrays s a)
      then (Inr (),
            s\<lparr>row_arrays := (row_arrays s)
                 (outer_arrays s a ! nat rowIndex :=
                    store_elem (row_arrays s (outer_arrays s a ! nat rowIndex)) colIndex newValue)\<rparr>)
      else (Inl TypeError, s))"

text \<open>The two last statements of \<open>set\<close>, on the node at position \<open>i\<close>; then \<open>set\<close>.\<close>

definition expand_and_store_ref ::
  "rstore \<Rightarrow> nat \<Rightarrow> int \<Rightarrow> int \<Rightarrow> jsval \<Rightarrow> (error + unit) \<times> rstore" where
  "expand_and_store_ref s i rowIndex colIndex newValue =
     (case expandMatrixIfNeeded_ref s (rvalue (rnodes s ! i)) rowIndex colIndex of
        (Inl e, s1) \<Rightarrow> (Inl e, s1)
      | (Inr u, s1) \<Rightarrow> store_cell_ref s1 (rvalue (rnodes s ! i)) rowIndex colIndex newValue)"

definition set_ref ::
  "rstore \<Rightarrow> int \<Rightarrow> int \<Rightarrow> int \<Rightarrow> int \<Rightarrow> int \<Rightarrow> jsval \<Rightarrow> (error + unit) \<times> rstore" where
  "set_ref s x y z rowIndex colIndex newValue =
     (case findNode_ref s x y z of
        None \<Rightarrow>
          (case createNodeIfNeeded_ref s x y z (rowIndex + 1) (colIndex + 1) of
             (Inl e, s') \<Rightarrow> (Inl e, s')
           | (Inr i, s') \<Rightarrow> expand_and_store_ref s' i rowIndex colIndex newValue)
      | Some i \<Rightarrow> expand_and_store_ref s i rowIndex colIndex newValue)"

text \<open>
  The grid that a reader of the outer array \<open>a\<close> sees, cell by cell; and the outer arrays
  in which no row stands twice and every row is allocated. Every outer array that the
  class builds itself is of that kind.
\<close>

definition grid_of :: "rstore \<Rightarrow> ref \<Rightarrow> grid" where
  "grid_of s a = map (row_arrays s) (outer_arrays s a)"

definition separate_rows :: "rstore \<Rightarrow> ref \<Rightarrow> bool" where
  "separate_rows s a =
     (distinct (outer_arrays s a) \<and> (\<forall>r \<in> set (outer_arrays s a). r < row_next s))"

text \<open>The store with \<open>k\<close> new rows of \<open>cols\<close> zeros each (for the closed forms below).\<close>

definition with_rows :: "rstore \<Rightarrow> nat \<Rightarrow> nat \<Rightarrow> rstore" where
  "with_rows s k cols =
     s\<lparr>row_arrays := (\<lambda>r. if row_next s \<le> r \<and> r < row_next s + k then replicate cols (Num 0)
                           else row_arrays s r),
       row_next := row_next s + k\<rparr>"

declare push_rows_ref.simps [simp del]
declare expand_cols_ref.simps [simp del]

section \<open>The loops in closed form\<close>

lemma push_rows_eq:
  "push_rows g r k = g @ replicate (nat (r + 1 - int (length g))) (replicate k (Num 0))"
proof (induction g r k rule: push_rows.induct)
  case (1 g r k)
  show ?case
  proof (cases "int (length g) \<le> r")
    case True
    then have n: "nat (r + 1 - int (length g)) = Suc (nat (r + 1 - int (length (g @ [replicate k (Num 0)]))))"
      by simp
    from True have "push_rows g r k = push_rows (g @ [replicate k (Num 0)]) r k"
      by (subst push_rows.simps) simp
    also have "\<dots> = (g @ [replicate k (Num 0)]) @ replicate (nat (r + 1 - int (length (g @ [replicate k (Num 0)])))) (replicate k (Num 0))"
      using "1.IH" [OF True] .
    also have "\<dots> = g @ replicate (nat (r + 1 - int (length g))) (replicate k (Num 0))"
      unfolding n by simp
    finally show ?thesis .
  next
    case False
    then show ?thesis by (subst push_rows.simps) simp
  qed
qed

lemma push_cols_eq:
  "push_cols rw c = rw @ replicate (nat (c + 1 - int (length rw))) (Num 0)"
proof (induction rw c rule: push_cols.induct)
  case (1 rw c)
  show ?case
  proof (cases "int (length rw) \<le> c")
    case True
    then have n: "nat (c + 1 - int (length rw)) = Suc (nat (c + 1 - int (length (rw @ [Num 0]))))"
      by simp
    from True have "push_cols rw c = push_cols (rw @ [Num 0]) c"
      by (subst push_cols.simps) simp
    also have "\<dots> = (rw @ [Num 0]) @ replicate (nat (c + 1 - int (length (rw @ [Num 0])))) (Num 0)"
      using "1.IH" [OF True] .
    also have "\<dots> = rw @ replicate (nat (c + 1 - int (length rw))) (Num 0)"
      unfolding n by simp
    finally show ?thesis .
  next
    case False
    then show ?thesis by (subst push_cols.simps) simp
  qed
qed

lemma expand_cols_eq:
  "expand_cols g r c = take r g @ map (\<lambda>rw. push_cols rw c) (drop r g)"
proof (induction g r c rule: expand_cols.induct)
  case (1 g r c)
  show ?case
  proof (cases "r < length g")
    case True
    let ?g' = "g[r := push_cols (g ! r) c]"
    from True have "expand_cols g r c = expand_cols ?g' (r + 1) c"
      by (subst expand_cols.simps) simp
    also have "\<dots> = take (r + 1) ?g' @ map (\<lambda>rw. push_cols rw c) (drop (r + 1) ?g')"
      using "1.IH" [OF True] .
    also have "take (r + 1) ?g' = take r g @ [push_cols (g ! r) c]"
      using True by (simp add: take_Suc_conv_app_nth)
    also have "drop (r + 1) ?g' = drop (Suc r) g"
      by simp
    finally show ?thesis
      using True by (simp add: Cons_nth_drop_Suc [symmetric])
  next
    case False
    then show ?thesis by (subst expand_cols.simps) simp
  qed
qed

lemma update_row_eq:
  "update_row rw c = take c rw @ replicate (length rw - c) (Num 1)"
proof (induction rw c rule: update_row.induct)
  case (1 rw c)
  show ?case
  proof (cases "c < length rw")
    case True
    let ?rw' = "rw[c := Num 1]"
    from True have "update_row rw c = update_row ?rw' (c + 1)"
      by (subst update_row.simps) simp
    also have "\<dots> = take (c + 1) ?rw' @ replicate (length ?rw' - (c + 1)) (Num 1)"
      using "1.IH" [OF True] .
    also have "take (c + 1) ?rw' = take c rw @ [Num 1]"
      using True by (simp add: take_Suc_conv_app_nth)
    finally show ?thesis
      using True by (simp add: replicate_Suc [symmetric] Suc_diff_Suc del: replicate_Suc)
  next
    case False
    then show ?thesis by (subst update_row.simps) simp
  qed
qed

lemma update_grid_eq:
  "update_grid g r = take r g @ map (\<lambda>rw. replicate (length rw) (Num 1)) (drop r g)"
proof (induction g r rule: update_grid.induct)
  case (1 g r)
  show ?case
  proof (cases "r < length g")
    case True
    let ?g' = "g[r := update_row (g ! r) 0]"
    from True have "update_grid g r = update_grid ?g' (r + 1)"
      by (subst update_grid.simps) simp
    also have "\<dots> = take (r + 1) ?g' @ map (\<lambda>rw. replicate (length rw) (Num 1)) (drop (r + 1) ?g')"
      using "1.IH" [OF True] .
    also have "take (r + 1) ?g' = take r g @ [replicate (length (g ! r)) (Num 1)]"
      using True by (simp add: take_Suc_conv_app_nth update_row_eq)
    also have "drop (r + 1) ?g' = drop (Suc r) g"
      by simp
    finally show ?thesis
      using True by (simp add: Cons_nth_drop_Suc [symmetric])
  next
    case False
    then show ?thesis by (subst update_grid.simps) simp
  qed
qed

section \<open>Lookup\<close>

lemma find_first_Some:
  "find_first P xs = Some i \<Longrightarrow> i < length xs \<and> P (xs ! i) \<and> (\<forall>j<i. \<not> P (xs ! j))"
proof (induction xs arbitrary: i)
  case Nil
  then show ?case by simp
next
  case (Cons a as)
  show ?case
  proof (cases "P a")
    case True
    with Cons.prems show ?thesis by simp
  next
    case False
    with Cons.prems obtain k where k: "find_first P as = Some k" "i = Suc k"
      by auto
    from Cons.IH [OF k(1)] False k(2) show ?thesis
      by (auto simp: less_Suc_eq_0_disj)
  qed
qed

lemma find_first_map_cong:
  "map P xs = map P ys \<Longrightarrow> find_first P xs = find_first P ys"
proof (induction xs arbitrary: ys)
  case Nil
  then show ?case by simp
next
  case (Cons a as)
  then obtain b bs where ys: "ys = b # bs" by (cases ys) auto
  with Cons.prems have "P a = P b" "map P as = map P bs" by auto
  with Cons.IH [of bs] ys show ?case by simp
qed

lemma find_first_snoc:
  "find_first P (xs @ [a]) =
     (case find_first P xs of Some i \<Rightarrow> Some i
      | None \<Rightarrow> if P a then Some (length xs) else None)"
  by (induction xs) (auto split: option.splits)

lemma findNode_Some:
  "findNode s x y z = Some i \<Longrightarrow>
     i < length (nodes s) \<and> xx (nodes s ! i) = x \<and> yy (nodes s ! i) = y \<and> zz (nodes s ! i) = z"
  unfolding findNode_def by (drule find_first_Some) simp

lemma nodes_set_val: "nodes (set_val s i g) = (nodes s)[i := (nodes s ! i)\<lparr>val := g\<rparr>]"
  by (simp add: set_val_def)

lemma usedAddresses_set_val: "usedAddresses (set_val s i g) = usedAddresses s"
  by (simp add: set_val_def)

lemma length_nodes_set_val: "length (nodes (set_val s i g)) = length (nodes s)"
  by (simp add: set_val_def)

lemma findNode_set_val: "findNode (set_val s i g) x y z = findNode s x y z"
proof -
  let ?P = "\<lambda>n. xx n = x \<and> yy n = y \<and> zz n = z"
  have "map ?P ((nodes s)[i := (nodes s ! i)\<lparr>val := g\<rparr>]) = map ?P (nodes s)"
  proof (rule nth_equalityI)
    show "length (map ?P ((nodes s)[i := (nodes s ! i)\<lparr>val := g\<rparr>])) = length (map ?P (nodes s))"
      by simp
  next
    fix j
    assume "j < length (map ?P ((nodes s)[i := (nodes s ! i)\<lparr>val := g\<rparr>]))"
    then have j: "j < length (nodes s)" by simp
    show "map ?P ((nodes s)[i := (nodes s ! i)\<lparr>val := g\<rparr>]) ! j = map ?P (nodes s) ! j"
      using j by (cases "j = i") simp_all
  qed
  then show ?thesis
    unfolding findNode_def nodes_set_val by (rule find_first_map_cong)
qed

lemma val_set_val_same:
  "i < length (nodes s) \<Longrightarrow> val (nodes (set_val s i g) ! i) = g"
  by (simp add: set_val_def)

lemma set_val_same: "i < length (nodes s) \<Longrightarrow> val (nodes s ! i) = g \<Longrightarrow> set_val s i g = s"
  by (simp add: set_val_def list_update_same_conv)

lemma set_val_set_val: "set_val (set_val s i g) i g' = set_val s i g'"
  by (cases "i < length (nodes s)") (simp_all add: set_val_def list_update_beyond)

section \<open>Expansion\<close>

lemma expandMatrixIfNeeded_closed:
  "expandMatrixIfNeeded g r c =
     (if rows_pushed g r = [] then Inl TypeError
      else if c \<ge> int (length (rows_pushed g r ! 0))
           then Inr (map (\<lambda>rw. push_cols rw c) (rows_pushed g r))
           else Inr (rows_pushed g r))"
proof -
  have p: "push_rows g r (if length g > 0 then length (g ! 0) else 0) = rows_pushed g r"
    by (simp add: push_rows_eq rows_pushed_def)
  show ?thesis
    unfolding expandMatrixIfNeeded_def Let_def p
    by (cases "rows_pushed g r") (simp_all add: expand_cols_eq)
qed

lemma length_rows_pushed: "length (rows_pushed g r) = max (length g) (nat (r + 1))"
  by (simp add: rows_pushed_def)

lemma rows_pushed_nonempty: "0 \<le> r \<Longrightarrow> rows_pushed g r \<noteq> []"
  using length_rows_pushed [of g r] by auto

lemma rows_pushed_nth: "i < length g \<Longrightarrow> rows_pushed g r ! i = g ! i"
  by (simp add: rows_pushed_def nth_append)

lemma rows_pushed_same: "nat (r + 1) \<le> length g \<Longrightarrow> rows_pushed g r = g"
  by (simp add: rows_pushed_def)


lemma length_push_cols: "length (push_cols rw c) = max (length rw) (nat (c + 1))"
  by (simp add: push_cols_eq)

lemma expandMatrixIfNeeded_succeeds:
  "0 \<le> r \<Longrightarrow> \<exists>g'. expandMatrixIfNeeded g r c = Inr g'"
  by (simp add: expandMatrixIfNeeded_closed rows_pushed_nonempty)

lemma expandMatrixIfNeeded_cases:
  assumes "expandMatrixIfNeeded g r c = Inr g'"
  shows "g' = map (\<lambda>rw. push_cols rw c) (rows_pushed g r) \<and> int (length (rows_pushed g r ! 0)) \<le> c
         \<or> g' = rows_pushed g r \<and> c < int (length (rows_pushed g r ! 0))"
    and "rows_pushed g r \<noteq> []"
  using assms by (auto simp: expandMatrixIfNeeded_closed split: if_splits)

lemma expandMatrixIfNeeded_length:
  assumes "expandMatrixIfNeeded g r c = Inr g'"
  shows "length g' = max (length g) (nat (r + 1))"
  using expandMatrixIfNeeded_cases(1) [OF assms] by (auto simp: length_rows_pushed)

lemma expandMatrixIfNeeded_prefix:
  assumes "expandMatrixIfNeeded g r c = Inr g'" and "i < length g"
  shows "prefix (g ! i) (g' ! i)"
proof -
  from assms(2) have i: "i < length (rows_pushed g r)" by (simp add: length_rows_pushed)
  from expandMatrixIfNeeded_cases(1) [OF assms(1)] show ?thesis
  proof
    assume "g' = map (\<lambda>rw. push_cols rw c) (rows_pushed g r) \<and> int (length (rows_pushed g r ! 0)) \<le> c"
    then have "g' ! i = push_cols (g ! i) c"
      using i assms(2) by (simp add: rows_pushed_nth)
    then show ?thesis by (simp add: push_cols_eq)
  next
    assume "g' = rows_pushed g r \<and> c < int (length (rows_pushed g r ! 0))"
    then show ?thesis using assms(2) by (simp add: rows_pushed_nth)
  qed
qed

lemma expandMatrixIfNeeded_first_row:
  assumes "expandMatrixIfNeeded g r c = Inr g'"
  shows "c < int (length (g' ! 0))"
proof -
  from expandMatrixIfNeeded_cases(2) [OF assms] have pos: "0 < length (rows_pushed g r)"
    by simp
  from expandMatrixIfNeeded_cases(1) [OF assms] show ?thesis
  proof
    assume a: "g' = map (\<lambda>rw. push_cols rw c) (rows_pushed g r) \<and> int (length (rows_pushed g r ! 0)) \<le> c"
    then have "g' ! 0 = push_cols (rows_pushed g r ! 0) c"
      using pos by simp
    then show ?thesis by (simp add: length_push_cols)
  next
    assume "g' = rows_pushed g r \<and> c < int (length (rows_pushed g r ! 0))"
    then show ?thesis by simp
  qed
qed

lemma expandMatrixIfNeeded_in_bounds:
  assumes "0 \<le> r" and "nat r < length g" and "c < int (length (g ! 0))"
  shows "expandMatrixIfNeeded g r c = Inr g"
proof -
  from assms(1,2) have "rows_pushed g r = g" by (intro rows_pushed_same) simp
  moreover from assms(2) have "g \<noteq> []" by auto
  ultimately show ?thesis
    using assms(3) by (simp add: expandMatrixIfNeeded_closed)
qed


lemma rectangular_nth:
  "rectangular g \<Longrightarrow> i < length g \<Longrightarrow> j < length g \<Longrightarrow> length (g ! i) = length (g ! j)"
  unfolding rectangular_def by simp




section \<open>Single-cell writes\<close>

lemma length_store_elem: "length (store_elem rw c v) = max (length rw) (nat (c + 1))"
  by (auto simp: store_elem_def)

lemma store_elem_at: "0 \<le> c \<Longrightarrow> store_elem rw c v ! nat c = v"
  by (auto simp: store_elem_def nth_append)

lemma store_elem_other: "j < length rw \<Longrightarrow> int j \<noteq> c \<Longrightarrow> store_elem rw c v ! j = rw ! j"
  by (auto simp: store_elem_def nth_append)

lemma store_elem_inside: "0 \<le> c \<Longrightarrow> nat c < length rw \<Longrightarrow> store_elem rw c v = rw[nat c := v]"
  by (simp add: store_elem_def)

lemma store_cell_row: "0 \<le> r \<Longrightarrow> nat r < length g \<Longrightarrow>
    store_cell g r c v = Inr (g[nat r := store_elem (g ! nat r) c v])"
  by (simp add: store_cell_def)

text \<open>The store after \<open>createNodeIfNeeded\<close> has appended a node with grid \<open>g\<close>.\<close>

lemma createNodeIfNeeded_new:
  assumes "findNode s x y z = None" and "new_grid rows cols = Inr g"
  shows "createNodeIfNeeded s x y z rows cols =
           (Inr (length (nodes s)),
            s\<lparr>nodes := nodes s @ [\<lparr>xx = x, yy = y, zz = z, val = g\<rparr>],
              usedAddresses := insert (generateAddress x y z) (usedAddresses s)\<rparr>)"
  using assms by (simp add: createNodeIfNeeded_def)

lemma set_val_appended:
  "set_val (s\<lparr>nodes := nodes s @ [\<lparr>xx = x, yy = y, zz = z, val = g\<rparr>], usedAddresses := A\<rparr>)
           (length (nodes s)) g' =
   s\<lparr>nodes := nodes s @ [\<lparr>xx = x, yy = y, zz = z, val = g'\<rparr>], usedAddresses := A\<rparr>"
  by (simp add: set_val_def)

lemma findNode_appended:
  assumes "findNode s x y z = None"
  shows "findNode (s\<lparr>nodes := nodes s @ [\<lparr>xx = x, yy = y, zz = z, val = g\<rparr>], usedAddresses := A\<rparr>) x y z
           = Some (length (nodes s))"
  using assms by (simp add: findNode_def find_first_snoc)

lemma findNode_appended_other:
  assumes "(x', y', z') \<noteq> (x, y, z)"
  shows "findNode (s\<lparr>nodes := nodes s @ [\<lparr>xx = x, yy = y, zz = z, val = g\<rparr>], usedAddresses := A\<rparr>) x' y' z'
           = findNode s x' y' z'"
  using assms by (auto simp: findNode_def find_first_snoc split: option.splits)

lemma set_cell_new:
  assumes "findNode s x y z = None" and "0 \<le> r" and "0 \<le> c"
  shows "set_cell s x y z r c v =
           (Inr (),
            s\<lparr>nodes := nodes s @
                 [\<lparr>xx = x, yy = y, zz = z,
                   val = (replicate (nat r + 1) (replicate (nat c + 1) (Num 0)))
                           [nat r := (replicate (nat c + 1) (Num 0))[nat c := v]]\<rparr>],
              usedAddresses := insert (generateAddress x y z) (usedAddresses s)\<rparr>)"
proof -
  define zrow where "zrow = replicate (nat c + 1) (Num 0)"
  define Z where "Z = replicate (nat r + 1) zrow"
  define A where "A = insert (generateAddress x y z) (usedAddresses s)"
  define s1 where "s1 = s\<lparr>nodes := nodes s @ [\<lparr>xx = x, yy = y, zz = z, val = Z\<rparr>], usedAddresses := A\<rparr>"
  have lz: "length Z = nat r + 1" "length zrow = nat c + 1"
    by (simp_all add: Z_def zrow_def)
  have zr: "Z ! nat r = zrow" "Z ! 0 = zrow"
    unfolding Z_def by (rule nth_replicate, simp)+
  have ng: "new_grid (r + 1) (c + 1) = Inr Z"
    using assms(2,3) by (simp add: new_grid_def nat_add_distrib Z_def zrow_def)
  have cr: "createNodeIfNeeded s x y z (r + 1) (c + 1) = (Inr (length (nodes s)), s1)"
    unfolding s1_def A_def using assms(1) ng by (rule createNodeIfNeeded_new)
  have v1: "val (nodes s1 ! length (nodes s)) = Z"
    by (simp add: s1_def)
  have ex: "expandMatrixIfNeeded Z r c = Inr Z"
    using assms(2,3) by (intro expandMatrixIfNeeded_in_bounds) (simp_all add: lz zr)
  have st: "store_cell Z r c v = Inr (Z[nat r := store_elem (Z ! nat r) c v])"
    using assms(2) by (intro store_cell_row) (simp_all add: lz)
  have se: "store_elem (Z ! nat r) c v = zrow[nat c := v]"
    unfolding zr using assms(3) by (intro store_elem_inside) (simp_all add: lz)
  have "expand_and_store s1 (length (nodes s)) r c v =
          (Inr (), set_val s1 (length (nodes s)) (Z[nat r := zrow[nat c := v]]))"
    by (simp add: expand_and_store_def v1 ex st se)
  also have "set_val s1 (length (nodes s)) (Z[nat r := zrow[nat c := v]]) =
      s\<lparr>nodes := nodes s @ [\<lparr>xx = x, yy = y, zz = z, val = Z[nat r := zrow[nat c := v]]\<rparr>],
        usedAddresses := A\<rparr>"
    unfolding s1_def by (rule set_val_appended)
  finally have "set_cell s x y z r c v =
      (Inr (), s\<lparr>nodes := nodes s @ [\<lparr>xx = x, yy = y, zz = z, val = Z[nat r := zrow[nat c := v]]\<rparr>],
        usedAddresses := A\<rparr>)"
    using assms(1) cr by (simp add: set_cell_def)
  then show ?thesis
    unfolding Z_def zrow_def A_def .
qed

section \<open>Whole-grid writes\<close>

lemma new_grid_of_nat:
  "new_grid (int rows) (int cols) = Inr (replicate rows (replicate cols (Num 0)))"
  by (simp add: new_grid_def)

lemma setMatrix_existing:
  "findNode s x y z = Some i \<Longrightarrow> setMatrix s x y z m = (Inr (), set_val s i m)"
  by (simp add: setMatrix_def createNodeIfNeeded_def Let_def)

lemma setMatrix_new:
  assumes "findNode s x y z = None"
  shows "setMatrix s x y z m =
           (Inr (),
            s\<lparr>nodes := nodes s @ [\<lparr>xx = x, yy = y, zz = z, val = m\<rparr>],
              usedAddresses := insert (generateAddress x y z) (usedAddresses s)\<rparr>)"
proof -
  define cols where "cols = (if length m > 0 then length (m ! 0) else 0)"
  have "createNodeIfNeeded s x y z (int (length m)) (int cols) =
          (Inr (length (nodes s)),
           s\<lparr>nodes := nodes s @ [\<lparr>xx = x, yy = y, zz = z,
                                  val = replicate (length m) (replicate cols (Num 0))\<rparr>],
             usedAddresses := insert (generateAddress x y z) (usedAddresses s)\<rparr>)"
    using assms new_grid_of_nat by (rule createNodeIfNeeded_new)
  then show ?thesis
    unfolding setMatrix_def Let_def cols_def [symmetric]
    by (simp add: set_val_appended)
qed

section \<open>Reads\<close>

lemma getDimensions_rectangular:
  assumes "findNode s x y z = Some i" and "rectangular (val (nodes s ! i))"
    and "r < length (val (nodes s ! i))"
  shows "getDimensions s x y z = (length (val (nodes s ! i)), length (val (nodes s ! i) ! r))"
proof -
  from assms(3) have pos: "0 < length (val (nodes s ! i))" by auto
  with assms(2,3) have "length (val (nodes s ! i) ! 0) = length (val (nodes s ! i) ! r)"
    by (intro rectangular_nth)
  with assms(1) pos show ?thesis
    by (simp add: getDimensions_def Let_def)
qed

section \<open>What a write does to the grid\<close>

lemma prefix_nth: "prefix xs ys \<Longrightarrow> j < length xs \<Longrightarrow> ys ! j = xs ! j"
  by (auto simp: prefix_def nth_append)

lemma store_cell_Inr:
  assumes "store_cell g r c v = Inr g'"
  shows "0 \<le> r" and "nat r < length g" and "g' = g[nat r := store_elem (g ! nat r) c v]"
  using assms by (auto simp: store_cell_def split: if_splits)

lemma store_cell_target:
  assumes "store_cell g r c v = Inr g'" and "0 \<le> c"
  shows "nat r < length g'" and "nat c < length (g' ! nat r)" and "g' ! nat r ! nat c = v"
proof -
  note s = store_cell_Inr [OF assms(1)]
  show "nat r < length g'" using s by simp
  have row: "g' ! nat r = store_elem (g ! nat r) c v" using s by simp
  show "nat c < length (g' ! nat r)"
    unfolding row using assms(2) by (simp add: length_store_elem)
  show "g' ! nat r ! nat c = v"
    unfolding row using assms(2) by (rule store_elem_at)
qed

lemma store_cell_frame:
  assumes "store_cell g r c v = Inr g'" and "i < length g" and "j < length (g ! i)"
    and "int i \<noteq> r \<or> int j \<noteq> c"
  shows "length g' = length g" and "j < length (g' ! i)" and "g' ! i ! j = g ! i ! j"
proof -
  note s = store_cell_Inr [OF assms(1)]
  show "length g' = length g" using s by simp
  show "j < length (g' ! i)"
    using s assms(2,3) by (cases "i = nat r") (simp_all add: length_store_elem)
  show "g' ! i ! j = g ! i ! j"
  proof (cases "i = nat r")
    case True
    with s(1) assms(4) have "int j \<noteq> c" by simp
    with True s assms(2,3) show ?thesis by (simp add: store_elem_other)
  next
    case False
    with s show ?thesis by simp
  qed
qed

text \<open>Expansion followed by the assignment: the written cell, and every cell that was there.\<close>

lemma write_frame:
  assumes e: "expandMatrixIfNeeded g r c = Inr g'" and w: "store_cell g' r c v = Inr g''"
    and i: "i < length g" and j: "j < length (g ! i)" and ne: "int i \<noteq> r \<or> int j \<noteq> c"
  shows "i < length g''" and "j < length (g'' ! i)" and "g'' ! i ! j = g ! i ! j"
proof -
  from expandMatrixIfNeeded_length [OF e] i have i': "i < length g'" by simp
  from expandMatrixIfNeeded_prefix [OF e i] have p: "prefix (g ! i) (g' ! i)" .
  from p j have j': "j < length (g' ! i)"
    using prefix_length_le by fastforce
  from p j have v: "g' ! i ! j = g ! i ! j" by (rule prefix_nth)
  from store_cell_frame [OF w i' j' ne] i' v
  show "i < length g''" and "j < length (g'' ! i)" and "g'' ! i ! j = g ! i ! j"
    by simp_all
qed

lemma write_succeeds:
  assumes "0 \<le> r"
  obtains g' g'' where "expandMatrixIfNeeded g r c = Inr g'" and "store_cell g' r c v = Inr g''"
proof -
  from expandMatrixIfNeeded_succeeds [OF assms] obtain g'
    where g': "expandMatrixIfNeeded g r c = Inr g'" by blast
  from expandMatrixIfNeeded_length [OF g'] assms have "nat r < length g'" by simp
  with assms have "store_cell g' r c v = Inr (g'[nat r := store_elem (g' ! nat r) c v])"
    by (rule store_cell_row)
  with g' show ?thesis by (rule that)
qed


lemma write_again:
  assumes e: "expandMatrixIfNeeded g r c = Inr g'" and w: "store_cell g' r c v = Inr g''"
    and c: "0 \<le> c"
  shows "expandMatrixIfNeeded g'' r c = Inr g''" and "store_cell g'' r c v = Inr g''"
proof -
  note s = store_cell_Inr [OF w]
  note t = store_cell_target [OF w c]
  from s(2) have pos: "0 < length g'" by auto
  have "length (g' ! 0) \<le> length (g'' ! 0)"
    unfolding s(3) using pos by (cases "nat r = 0") (simp_all add: length_store_elem)
  with expandMatrixIfNeeded_first_row [OF e] have "c < int (length (g'' ! 0))" by simp
  with s(1) t(1) show "expandMatrixIfNeeded g'' r c = Inr g''"
    by (rule expandMatrixIfNeeded_in_bounds)
  have "store_elem (g'' ! nat r) c v = (g'' ! nat r)[nat c := v]"
    using c t(2) by (rule store_elem_inside)
  also have "\<dots> = g'' ! nat r"
    using t(3) by (simp add: list_update_same_conv t(2))
  finally have "g''[nat r := store_elem (g'' ! nat r) c v] = g''"
    by (simp add: list_update_same_conv t(1))
  with store_cell_row [OF s(1) t(1), of c v] show "store_cell g'' r c v = Inr g''"
    by simp
qed

section \<open>What a write does to the store\<close>

lemma get_Inr:
  assumes "get s x y z r c = Inr w"
  obtains i where "findNode s x y z = Some i" and "0 \<le> r" and "nat r < length (val (nodes s ! i))"
    and "0 \<le> c" and "nat c < length (val (nodes s ! i) ! nat r)"
    and "w = val (nodes s ! i) ! nat r ! nat c"
proof -
  from assms obtain i where f: "findNode s x y z = Some i"
    by (auto simp: get_def split: option.splits)
  with assms have "0 \<le> r \<and> r < int (length (val (nodes s ! i))) \<and> 0 \<le> c \<and>
      c < int (length (val (nodes s ! i) ! nat r)) \<and> w = val (nodes s ! i) ! nat r ! nat c"
    by (auto simp: get_def Let_def split: if_splits)
  then have "0 \<le> r" "nat r < length (val (nodes s ! i))" "0 \<le> c"
    "nat c < length (val (nodes s ! i) ! nat r)" "w = val (nodes s ! i) ! nat r ! nat c"
    by (simp_all add: nat_less_iff)
  with f show ?thesis by (rule that)
qed

lemma get_in_range:
  assumes "findNode s x y z = Some i" and "0 \<le> r" and "nat r < length (val (nodes s ! i))"
    and "0 \<le> c" and "nat c < length (val (nodes s ! i) ! nat r)"
  shows "get s x y z r c = Inr (val (nodes s ! i) ! nat r ! nat c)"
  using assms by (simp add: get_def Let_def nat_less_iff)

lemma set_cell_existing_store:
  assumes "findNode s x y z = Some i"
    and "expandMatrixIfNeeded (val (nodes s ! i)) r c = Inr g'"
    and "store_cell g' r c v = Inr g''"
  shows "set_cell s x y z r c v = (Inr (), set_val s i g'')"
  using assms by (simp add: set_cell_def expand_and_store_def)

lemma set_cell_succeeds: "0 \<le> r \<Longrightarrow> 0 \<le> c \<Longrightarrow> fst (set_cell s x y z r c v) = Inr ()"
proof (cases "findNode s x y z")
  case None
  assume "0 \<le> r" "0 \<le> c"
  with None show ?thesis by (simp add: set_cell_new)
next
  case (Some i)
  assume "0 \<le> r"
  then obtain g' g'' where "expandMatrixIfNeeded (val (nodes s ! i)) r c = Inr g'"
    and "store_cell g' r c v = Inr g''"
    by (rule write_succeeds)
  with Some show ?thesis by (simp add: set_cell_existing_store)
qed

lemma set_cell_get_target:
  assumes r: "0 \<le> r" and c: "0 \<le> c"
  shows "get (snd (set_cell s x y z r c v)) x y z r c = Inr v"
proof (cases "findNode s x y z")
  case None
  define g where "g = (replicate (nat r + 1) (replicate (nat c + 1) (Num 0)))
                           [nat r := (replicate (nat c + 1) (Num 0))[nat c := v]]"
  define s' where "s' = s\<lparr>nodes := nodes s @ [\<lparr>xx = x, yy = y, zz = z, val = g\<rparr>],
              usedAddresses := insert (generateAddress x y z) (usedAddresses s)\<rparr>"
  have s': "snd (set_cell s x y z r c v) = s'"
    unfolding s'_def g_def by (simp add: set_cell_new [OF None r c])
  have f: "findNode s' x y z = Some (length (nodes s))"
    unfolding s'_def using None by (rule findNode_appended)
  have v: "val (nodes s' ! length (nodes s)) = g"
    by (simp add: s'_def)
  have lg: "nat r < length g"
    by (simp add: g_def del: replicate_Suc)
  have gr: "g ! nat r = (replicate (nat c + 1) (Num 0))[nat c := v]"
    by (simp add: g_def del: replicate_Suc)
  have lr: "nat c < length (g ! nat r)" and gv: "g ! nat r ! nat c = v"
    unfolding gr by (simp_all del: replicate_Suc)
  have "get s' x y z r c = Inr (val (nodes s' ! length (nodes s)) ! nat r ! nat c)"
    using f r _ c by (rule get_in_range) (simp_all only: v lg lr)
  then show ?thesis unfolding s' v gv .
next
  case (Some i)
  from r obtain g' g'' where e: "expandMatrixIfNeeded (val (nodes s ! i)) r c = Inr g'"
    and w: "store_cell g' r c v = Inr g''"
    by (rule write_succeeds)
  note t = store_cell_target [OF w c]
  have s': "snd (set_cell s x y z r c v) = set_val s i g''"
    by (simp add: set_cell_existing_store [OF Some e w])
  from Some have i: "i < length (nodes s)" by (simp add: findNode_Some)
  have f: "findNode (set_val s i g'') x y z = Some i"
    using Some by (simp add: findNode_set_val)
  have v: "val (nodes (set_val s i g'') ! i) = g''"
    using i by (rule val_set_val_same)
  have "get (set_val s i g'') x y z r c = Inr (val (nodes (set_val s i g'') ! i) ! nat r ! nat c)"
    using f r _ c by (rule get_in_range) (simp_all add: v t)
  then show ?thesis unfolding s' v t(3) .
qed

lemma set_cell_frame:
  assumes r1: "0 \<le> r1" and g: "get s x y z r c = Inr w" and ne: "r \<noteq> r1 \<or> c \<noteq> c1"
  shows "get (snd (set_cell s x y z r1 c1 v)) x y z r c = Inr w"
proof -
  from g obtain i where f: "findNode s x y z = Some i" and r: "0 \<le> r"
    and rl: "nat r < length (val (nodes s ! i))"
    and c: "0 \<le> c" and cl: "nat c < length (val (nodes s ! i) ! nat r)"
    and w: "w = val (nodes s ! i) ! nat r ! nat c"
    by (rule get_Inr)
  from r1 obtain g' g'' where e: "expandMatrixIfNeeded (val (nodes s ! i)) r1 c1 = Inr g'"
    and st: "store_cell g' r1 c1 v = Inr g''"
    by (rule write_succeeds)
  from ne r c have ne': "int (nat r) \<noteq> r1 \<or> int (nat c) \<noteq> c1" by simp
  note fr = write_frame [OF e st rl cl ne']
  have s': "snd (set_cell s x y z r1 c1 v) = set_val s i g''"
    by (simp add: set_cell_existing_store [OF f e st])
  from f have i: "i < length (nodes s)" by (simp add: findNode_Some)
  have f': "findNode (set_val s i g'') x y z = Some i"
    using f by (simp add: findNode_set_val)
  have v: "val (nodes (set_val s i g'') ! i) = g''"
    using i by (rule val_set_val_same)
  have "get (set_val s i g'') x y z r c = Inr (val (nodes (set_val s i g'') ! i) ! nat r ! nat c)"
    using f' r _ c by (rule get_in_range) (simp_all add: v fr)
  then show ?thesis unfolding s' v fr(3) w .
qed

text \<open>
  A \<open>set\<close> with non-negative indices, on a used or an unused address alike: on the store
  \<open>s0\<close> (the store itself, or the store with the new zero-filled node) the node's grid is
  expanded, the cell is assigned, and the result is the node's new grid.
\<close>

lemma set_cell_nonneg_cases:
  assumes r: "0 \<le> r" and c: "0 \<le> c"
  shows "\<exists>s0 i g' g''. findNode s0 x y z = Some i
    \<and> expandMatrixIfNeeded (val (nodes s0 ! i)) r c = Inr g'
    \<and> store_cell g' r c v = Inr g''
    \<and> set_cell s x y z r c v = (Inr (), set_val s0 i g'')
    \<and> (findNode s x y z \<noteq> None \<longrightarrow> s0 = s)
    \<and> (findNode s x y z = None \<longrightarrow>
           i = length (nodes s) \<and>
           s0 = s\<lparr>nodes := nodes s @ [\<lparr>xx = x, yy = y, zz = z,
                     val = replicate (nat r + 1) (replicate (nat c + 1) (Num 0))\<rparr>],
                  usedAddresses := insert (generateAddress x y z) (usedAddresses s)\<rparr>)"
proof (cases "findNode s x y z")
  case (Some i)
  from r obtain g' g'' where e: "expandMatrixIfNeeded (val (nodes s ! i)) r c = Inr g'"
    and w: "store_cell g' r c v = Inr g''"
    by (rule write_succeeds)
  from Some e w set_cell_existing_store [OF Some e w] show ?thesis
    by auto
next
  case None
  define s0 where "s0 = s\<lparr>nodes := nodes s @ [\<lparr>xx = x, yy = y, zz = z,
                     val = replicate (nat r + 1) (replicate (nat c + 1) (Num 0))\<rparr>],
                  usedAddresses := insert (generateAddress x y z) (usedAddresses s)\<rparr>"
  have ng: "new_grid (r + 1) (c + 1) = Inr (replicate (nat r + 1) (replicate (nat c + 1) (Num 0)))"
    using r c by (simp add: new_grid_def nat_add_distrib)
  have cr: "createNodeIfNeeded s x y z (r + 1) (c + 1) = (Inr (length (nodes s)), s0)"
    unfolding s0_def using None ng by (rule createNodeIfNeeded_new)
  have f: "findNode s0 x y z = Some (length (nodes s))"
    unfolding s0_def using None by (rule findNode_appended)
  from r obtain g' g'' where e: "expandMatrixIfNeeded (val (nodes s0 ! length (nodes s))) r c = Inr g'"
    and w: "store_cell g' r c v = Inr g''"
    by (rule write_succeeds)
  have "set_cell s x y z r c v = expand_and_store s0 (length (nodes s)) r c v"
    using None cr by (simp add: set_cell_def)
  also have "\<dots> = (Inr (), set_val s0 (length (nodes s)) g'')"
    using e w by (simp add: expand_and_store_def)
  finally have sc: "set_cell s x y z r c v = (Inr (), set_val s0 (length (nodes s)) g'')" .
  from f e w sc None show ?thesis
    unfolding s0_def by blast
qed





section \<open>The sweep\<close>

lemma update_grid_0: "update_grid g 0 = map (\<lambda>rw. replicate (length rw) (Num 1)) g"
  by (simp add: update_grid_eq)

lemma update_from_eq:
  "update_from s i =
     s\<lparr>nodes := take i (nodes s) @
          map (\<lambda>n. n\<lparr>val := map (\<lambda>rw. replicate (length rw) (Num 1)) (val n)\<rparr>) (drop i (nodes s))\<rparr>"
proof (induction s i rule: update_from.induct)
  case (1 s i)
  let ?f = "\<lambda>n. n\<lparr>val := map (\<lambda>rw. replicate (length rw) (Num 1)) (val n)\<rparr>"
  show ?case
  proof (cases "i < length (nodes s)")
    case True
    let ?s' = "set_val s i (update_grid (val (nodes s ! i)) 0)"
    have n': "nodes ?s' = (nodes s)[i := ?f (nodes s ! i)]"
      by (simp add: nodes_set_val update_grid_0)
    from True have "update_from s i = update_from ?s' (i + 1)"
      by (subst update_from.simps) simp
    also have "\<dots> = ?s'\<lparr>nodes := take (i + 1) (nodes ?s') @ map ?f (drop (i + 1) (nodes ?s'))\<rparr>"
      using "1.IH" [OF True] .
    also have "take (i + 1) (nodes ?s') = take i (nodes s) @ [?f (nodes s ! i)]"
      unfolding n' using True by (simp add: take_Suc_conv_app_nth)
    also have "drop (i + 1) (nodes ?s') = drop (Suc i) (nodes s)"
      unfolding n' by simp
    also have "(take i (nodes s) @ [?f (nodes s ! i)]) @ map ?f (drop (Suc i) (nodes s))
        = take i (nodes s) @ map ?f (drop i (nodes s))"
      using True by (simp add: Cons_nth_drop_Suc [symmetric])
    finally show ?thesis by (simp add: set_val_def)
  next
    case False
    then show ?thesis by (subst update_from.simps) simp
  qed
qed

lemma update_eq:
  "update s = s\<lparr>nodes := map (\<lambda>n. n\<lparr>val := map (\<lambda>rw. replicate (length rw) (Num 1)) (val n)\<rparr>) (nodes s)\<rparr>"
  by (simp add: update_def update_from_eq)

lemma findNode_update: "findNode (update s) x y z = findNode s x y z"
  unfolding findNode_def update_eq
  by (rule find_first_map_cong) simp

subsection \<open>The order of the sweep\<close>

text \<open>The cells of one row, from the left.\<close>

lemma assign_row_prefix:
  assumes "i < length (nodes s)" and "r < length (val (nodes s ! i))"
    and "n \<le> length (val (nodes s ! i) ! r)"
  shows "foldl assign_one s (map (\<lambda>c. (i, r, c)) [0..<n]) =
           set_val s i ((val (nodes s ! i))
             [r := replicate n (Num 1) @ drop n (val (nodes s ! i) ! r)])"
  using assms(3)
proof (induction n)
  case 0
  have "(val (nodes s ! i))[r := val (nodes s ! i) ! r] = val (nodes s ! i)"
    by simp
  with assms(1) show ?case by (simp add: set_val_same)
next
  case (Suc n)
  define g where "g = val (nodes s ! i)"
  define R where "R = replicate n (Num 1) @ drop n (g ! r)"
  from Suc.prems have n: "n < length (g ! r)" by (simp add: g_def)
  have IH: "foldl assign_one s (map (\<lambda>c. (i, r, c)) [0..<n]) = set_val s i (g[r := R])"
    using Suc.IH Suc.prems by (simp add: g_def R_def)
  have v: "val (nodes (set_val s i (g[r := R])) ! i) = g[r := R]"
    using assms(1) by (rule val_set_val_same)
  have row: "g[r := R] ! r = R"
    using assms(2) by (simp add: g_def)
  have d: "drop n (g ! r) = g ! r ! n # drop (Suc n) (g ! r)"
    using n by (simp add: Cons_nth_drop_Suc)
  have "R[n := Num 1] = replicate n (Num 1) @ (Num 1 # drop (Suc n) (g ! r))"
    unfolding R_def d by (simp add: list_update_append)
  also have "\<dots> = replicate (Suc n) (Num 1) @ drop (Suc n) (g ! r)"
    by (simp add: replicate_app_Cons_same)
  finally have step: "assign_one (set_val s i (g[r := R])) (i, r, n) =
      set_val s i (g[r := replicate (Suc n) (Num 1) @ drop (Suc n) (g ! r)])"
    by (simp add: assign_one_def v row set_val_set_val)
  show ?case
    using IH step by (simp add: g_def)
qed

lemma assign_row:
  assumes "i < length (nodes s)" and "r < length (val (nodes s ! i))"
  shows "foldl assign_one s (map (\<lambda>c. (i, r, c)) [0..<length (val (nodes s ! i) ! r)]) =
           set_val s i ((val (nodes s ! i))
             [r := replicate (length (val (nodes s ! i) ! r)) (Num 1)])"
  using assign_row_prefix [OF assms order_refl] by simp

text \<open>The rows of one node, from the first.\<close>

lemma assign_rows_prefix:
  assumes i: "i < length (nodes s)" and m: "m \<le> length (val (nodes s ! i))"
  shows "foldl assign_one s
           (concat (map (\<lambda>r. map (\<lambda>c. (i, r, c)) [0..<length (val (nodes s ! i) ! r)]) [0..<m])) =
         set_val s i (map (\<lambda>rw. replicate (length rw) (Num 1)) (take m (val (nodes s ! i)))
                        @ drop m (val (nodes s ! i)))"
  using m
proof (induction m)
  case 0
  with i show ?case by (simp add: set_val_same)
next
  case (Suc m)
  define g where "g = val (nodes s ! i)"
  define ones where "ones = (\<lambda>rw::row. replicate (length rw) (Num 1))"
  define G where "G = map ones (take m g) @ drop m g"
  define s' where "s' = set_val s i G"
  from Suc.prems have m: "m < length g" by (simp add: g_def)
  have IH: "foldl assign_one s
           (concat (map (\<lambda>r. map (\<lambda>c. (i, r, c)) [0..<length (g ! r)]) [0..<m])) = s'"
    using Suc.IH Suc.prems by (simp add: g_def G_def s'_def ones_def)
  have i': "i < length (nodes s')"
    using i by (simp add: s'_def length_nodes_set_val)
  have v': "val (nodes s' ! i) = G"
    unfolding s'_def using i by (rule val_set_val_same)
  have lG: "length G = length g"
    using m by (simp add: G_def)
  have Gm: "G ! m = g ! m"
    using m by (simp add: G_def nth_append)
  have d: "drop m g = g ! m # drop (Suc m) g"
    using m by (simp add: Cons_nth_drop_Suc)
  have "G[m := ones (g ! m)] = map ones (take m g) @ (ones (g ! m) # drop (Suc m) g)"
    unfolding G_def d using m by (simp add: list_update_append)
  also have "\<dots> = map ones (take (Suc m) g) @ drop (Suc m) g"
    using m by (simp add: take_Suc_conv_app_nth)
  finally have upd: "G[m := ones (g ! m)] = map ones (take (Suc m) g) @ drop (Suc m) g" .
  have "foldl assign_one s' (map (\<lambda>c. (i, m, c)) [0..<length (val (nodes s' ! i) ! m)]) =
      set_val s' i ((val (nodes s' ! i))[m := replicate (length (val (nodes s' ! i) ! m)) (Num 1)])"
    using i' by (rule assign_row) (simp add: v' lG m)
  then have row: "foldl assign_one s' (map (\<lambda>c. (i, m, c)) [0..<length (g ! m)]) =
      set_val s i (map ones (take (Suc m) g) @ drop (Suc m) g)"
    unfolding v' Gm by (simp add: s'_def set_val_set_val upd [unfolded ones_def] ones_def)
  show ?case
    using IH row by (simp add: g_def ones_def)
qed

lemma assign_rows:
  assumes "i < length (nodes s)"
  shows "foldl assign_one s
           (concat (map (\<lambda>r. map (\<lambda>c. (i, r, c)) [0..<length (val (nodes s ! i) ! r)])
                        [0..<length (val (nodes s ! i))])) =
         set_val s i (map (\<lambda>rw. replicate (length rw) (Num 1)) (val (nodes s ! i)))"
  using assign_rows_prefix [OF assms order_refl] by simp

text \<open>The nodes, in the order of \<open>nodes\<close>.\<close>

lemma assign_nodes_prefix:
  assumes "k \<le> length (nodes s)"
  shows "foldl assign_one s
           (concat (map (\<lambda>i.
              concat (map (\<lambda>r. map (\<lambda>c. (i, r, c)) [0..<length (val (nodes s ! i) ! r)])
                          [0..<length (val (nodes s ! i))]))
              [0..<k])) =
         s\<lparr>nodes := map (\<lambda>n. n\<lparr>val := map (\<lambda>rw. replicate (length rw) (Num 1)) (val n)\<rparr>)
                          (take k (nodes s))
                     @ drop k (nodes s)\<rparr>"
  using assms
proof (induction k)
  case 0
  then show ?case by simp
next
  case (Suc k)
  define F where "F = (\<lambda>n::node. n\<lparr>val := map (\<lambda>rw. replicate (length rw) (Num 1)) (val n)\<rparr>)"
  define N where "N = map F (take k (nodes s)) @ drop k (nodes s)"
  define s' where "s' = s\<lparr>nodes := N\<rparr>"
  define cells where "cells = (\<lambda>i.
              concat (map (\<lambda>r. map (\<lambda>c. (i, r, c)) [0..<length (val (nodes s ! i) ! r)])
                          [0..<length (val (nodes s ! i))]))"
  from Suc.prems have k: "k < length (nodes s)" by simp
  have IH: "foldl assign_one s (concat (map cells [0..<k])) = s'"
    using Suc.IH Suc.prems by (simp add: cells_def s'_def N_def F_def)
  have n': "nodes s' = N" by (simp add: s'_def)
  have lN: "length N = length (nodes s)"
    using k by (simp add: N_def)
  have Nk: "N ! k = nodes s ! k"
    using k by (simp add: N_def nth_append)
  have d: "drop k (nodes s) = nodes s ! k # drop (Suc k) (nodes s)"
    using k by (simp add: Cons_nth_drop_Suc)
  have "N[k := F (nodes s ! k)] = map F (take k (nodes s)) @ (F (nodes s ! k) # drop (Suc k) (nodes s))"
    unfolding N_def d using k by (simp add: list_update_append)
  also have "\<dots> = map F (take (Suc k) (nodes s)) @ drop (Suc k) (nodes s)"
    using k by (simp add: take_Suc_conv_app_nth)
  finally have upd: "N[k := F (nodes s ! k)] = map F (take (Suc k) (nodes s)) @ drop (Suc k) (nodes s)" .
  have "foldl assign_one s'
           (concat (map (\<lambda>r. map (\<lambda>c. (k, r, c)) [0..<length (val (nodes s' ! k) ! r)])
                        [0..<length (val (nodes s' ! k))])) =
         set_val s' k (map (\<lambda>rw. replicate (length rw) (Num 1)) (val (nodes s' ! k)))"
    by (rule assign_rows) (simp add: n' lN k)
  then have "foldl assign_one s' (cells k) =
      set_val s' k (map (\<lambda>rw. replicate (length rw) (Num 1)) (val (nodes s ! k)))"
    unfolding n' Nk cells_def .
  also have "\<dots> = s\<lparr>nodes := N[k := F (nodes s ! k)]\<rparr>"
    by (simp add: set_val_def s'_def Nk F_def)
  finally have node: "foldl assign_one s' (cells k) =
      s\<lparr>nodes := map F (take (Suc k) (nodes s)) @ drop (Suc k) (nodes s)\<rparr>"
    unfolding upd .
  have "foldl assign_one s (concat (map cells [0..<Suc k])) =
      s\<lparr>nodes := map F (take (Suc k) (nodes s)) @ drop (Suc k) (nodes s)\<rparr>"
    using IH node by simp
  then show ?case unfolding cells_def F_def .
qed

lemma update_in_order: "update s = foldl assign_one s (cells_row_major s)"
  unfolding cells_row_major_def
  by (simp add: assign_nodes_prefix [OF order_refl] update_eq)

subsection \<open>The log of the sweep\<close>

lemma update_row_log_eq:
  "update_row_log i r rw c lg = (update_row rw c, lg @ map (\<lambda>c. (i, r, c)) [c..<length rw])"
proof (induction i r rw c lg rule: update_row_log.induct)
  case (1 i r rw c lg)
  show ?case
  proof (cases "c < length rw")
    case True
    have "update_row_log i r rw c lg = update_row_log i r (rw[c := Num 1]) (c + 1) (lg @ [(i, r, c)])"
      using True by (subst update_row_log.simps) simp
    also have "\<dots> = (update_row (rw[c := Num 1]) (c + 1),
        (lg @ [(i, r, c)]) @ map (\<lambda>c. (i, r, c)) [c + 1..<length (rw[c := Num 1])])"
      using "1.IH" [OF True] .
    also have "update_row (rw[c := Num 1]) (c + 1) = update_row rw c"
      using True by (subst (2) update_row.simps) simp
    also have "(lg @ [(i, r, c)]) @ map (\<lambda>c. (i, r, c)) [c + 1..<length (rw[c := Num 1])]
        = lg @ map (\<lambda>c. (i, r, c)) [c..<length rw]"
      using True by (simp add: upt_conv_Cons)
    finally show ?thesis .
  next
    case False
    then show ?thesis
      by (subst update_row_log.simps, subst update_row.simps) simp
  qed
qed

lemma length_update_row: "length (update_row rw c) = length rw"
  by (simp add: update_row_eq)

lemma update_grid_log_eq:
  "update_grid_log i g r lg =
     (update_grid g r,
      lg @ concat (map (\<lambda>r. map (\<lambda>c. (i, r, c)) [0..<length (g ! r)]) [r..<length g]))"
proof (induction i g r lg rule: update_grid_log.induct)
  case (1 i g r lg)
  show ?case
  proof (cases "r < length g")
    case True
    define g' where "g' = g[r := update_row (g ! r) 0]"
    define lg' where "lg' = lg @ map (\<lambda>c. (i, r, c)) [0..<length (g ! r)]"
    have row: "update_row_log i r (g ! r) 0 lg = (update_row (g ! r) 0, lg')"
      by (simp add: update_row_log_eq lg'_def)
    have "update_grid_log i g r lg = update_grid_log i g' (r + 1) lg'"
      using True by (subst update_grid_log.simps) (simp add: row g'_def)
    also have "\<dots> = (update_grid g' (r + 1),
        lg' @ concat (map (\<lambda>r. map (\<lambda>c. (i, r, c)) [0..<length (g' ! r)]) [r + 1..<length g']))"
      using "1.IH" [OF True row [symmetric]] unfolding g'_def .
    also have "update_grid g' (r + 1) = update_grid g r"
      using True unfolding g'_def by (subst (2) update_grid.simps) simp
    also have "map (\<lambda>r. map (\<lambda>c. (i, r, c)) [0..<length (g' ! r)]) [r + 1..<length g']
        = map (\<lambda>r. map (\<lambda>c. (i, r, c)) [0..<length (g ! r)]) [r + 1..<length g]"
      by (rule map_cong) (simp_all add: g'_def)
    also have "lg' @ concat (map (\<lambda>r. map (\<lambda>c. (i, r, c)) [0..<length (g ! r)]) [r + 1..<length g])
        = lg @ concat (map (\<lambda>r. map (\<lambda>c. (i, r, c)) [0..<length (g ! r)]) [r..<length g])"
      using True by (simp add: lg'_def upt_conv_Cons)
    finally show ?thesis .
  next
    case False
    then show ?thesis
      by (subst update_grid_log.simps, subst update_grid.simps) simp
  qed
qed

lemma update_from_log_eq:
  "update_from_log s i lg =
     (update_from s i,
      lg @ concat (map (\<lambda>i.
             concat (map (\<lambda>r. map (\<lambda>c. (i, r, c)) [0..<length (val (nodes s ! i) ! r)])
                         [0..<length (val (nodes s ! i))]))
             [i..<length (nodes s)]))"
proof (induction s i lg rule: update_from_log.induct)
  case (1 s i lg)
  define cells where "cells = (\<lambda>(s::store) i.
             concat (map (\<lambda>r. map (\<lambda>c. (i, r, c)) [0..<length (val (nodes s ! i) ! r)])
                         [0..<length (val (nodes s ! i))]))"
  show ?case
  proof (cases "i < length (nodes s)")
    case True
    define g' where "g' = update_grid (val (nodes s ! i)) 0"
    define lg' where "lg' = lg @ cells s i"
    define s' where "s' = set_val s i g'"
    have grid: "update_grid_log i (val (nodes s ! i)) 0 lg = (g', lg')"
      by (simp add: update_grid_log_eq g'_def lg'_def cells_def)
    have "update_from_log s i lg = update_from_log s' (i + 1) lg'"
      using True by (subst update_from_log.simps) (simp add: grid s'_def)
    also have "\<dots> = (update_from s' (i + 1), lg' @ concat (map (cells s') [i + 1..<length (nodes s')]))"
      using "1.IH" [OF True grid [symmetric]] unfolding s'_def cells_def .
    also have "update_from s' (i + 1) = update_from s i"
      using True unfolding s'_def g'_def by (subst (2) update_from.simps) simp
    also have "map (cells s') [i + 1..<length (nodes s')] = map (cells s) [i + 1..<length (nodes s)]"
      by (rule map_cong) (simp_all add: s'_def cells_def set_val_def)
    also have "lg' @ concat (map (cells s) [i + 1..<length (nodes s)])
        = lg @ concat (map (cells s) [i..<length (nodes s)])"
      using True by (simp add: lg'_def upt_conv_Cons)
    finally show ?thesis unfolding cells_def .
  next
    case False
    then show ?thesis
      by (subst update_from_log.simps, subst update_from.simps) simp
  qed
qed

lemma update_log_eq: "update_log s = (update s, cells_row_major s)"
  by (simp add: update_log_def update_from_log_eq update_def cells_row_major_def)

section \<open>Errors\<close>












section \<open>Address strings\<close>

lemma digit_char_in: "d < 10 \<Longrightarrow> digit_char d \<in> set ''0123456789''"
  unfolding digit_char_def by (rule nth_mem) simp

lemma digit_char_inj: "d < 10 \<Longrightarrow> d' < 10 \<Longrightarrow> digit_char d = digit_char d' \<Longrightarrow> d = d'"
  unfolding digit_char_def
  by (subst (asm) nth_eq_iff_index_eq) simp_all

lemma nat_str_nonempty: "nat_str n \<noteq> []"
  by (subst nat_str.simps) simp

lemma nat_str_digits: "set (nat_str n) \<subseteq> set ''0123456789''"
proof (induction n rule: nat_str.induct)
  case (1 n)
  show ?case
  proof (cases "n < 10")
    case True
    then have "nat_str n = [digit_char n]" by (subst nat_str.simps) simp
    with digit_char_in [OF True] show ?thesis by simp
  next
    case False
    then have "nat_str n = nat_str (n div 10) @ [digit_char (n mod 10)]"
      by (subst nat_str.simps) simp
    moreover have "digit_char (n mod 10) \<in> set ''0123456789''"
      by (rule digit_char_in) simp
    ultimately show ?thesis using "1.IH" [OF False] by simp
  qed
qed

lemma nat_str_inj: "nat_str m = nat_str n \<Longrightarrow> m = n"
proof (induction m arbitrary: n rule: nat_str.induct)
  case (1 m)
  show ?case
  proof (cases "m < 10")
    case True
    then have m: "nat_str m = [digit_char m]" by (subst nat_str.simps) simp
    show ?thesis
    proof (cases "n < 10")
      case n: True
      then have "nat_str n = [digit_char n]" by (subst nat_str.simps) simp
      with m "1.prems" have "digit_char m = digit_char n" by simp
      with True n show ?thesis by (rule digit_char_inj)
    next
      case False
      then have "nat_str n = nat_str (n div 10) @ [digit_char (n mod 10)]"
        by (subst nat_str.simps) simp
      with m "1.prems" nat_str_nonempty [of "n div 10"] show ?thesis by simp
    qed
  next
    case False
    then have m: "nat_str m = nat_str (m div 10) @ [digit_char (m mod 10)]"
      by (subst nat_str.simps) simp
    show ?thesis
    proof (cases "n < 10")
      case True
      then have "nat_str n = [digit_char n]" by (subst nat_str.simps) simp
      with m "1.prems" nat_str_nonempty [of "m div 10"] show ?thesis by simp
    next
      case n: False
      then have "nat_str n = nat_str (n div 10) @ [digit_char (n mod 10)]"
        by (subst nat_str.simps) simp
      with m "1.prems" have a: "nat_str (m div 10) = nat_str (n div 10)"
        and b: "digit_char (m mod 10) = digit_char (n mod 10)" by simp_all
      from "1.IH" [OF False a] have "m div 10 = n div 10" .
      moreover from b have "m mod 10 = n mod 10"
        by (intro digit_char_inj) simp_all
      ultimately have "10 * (m div 10) + m mod 10 = 10 * (n div 10) + n mod 10"
        by simp
      then show ?thesis by simp
    qed
  qed
qed

lemma int_str_chars: "set (int_str i) \<subseteq> insert CHR ''-'' (set ''0123456789'')"
proof (cases "i < 0")
  case True
  then have "set (int_str i) = insert CHR ''-'' (set (nat_str (nat (- i))))"
    by (simp add: int_str_def)
  with nat_str_digits [of "nat (- i)"] show ?thesis by blast
next
  case False
  then have "set (int_str i) = set (nat_str (nat i))"
    by (simp add: int_str_def)
  with nat_str_digits [of "nat i"] show ?thesis by blast
qed

lemma int_str_no_comma: "CHR '','' \<notin> set (int_str i)"
proof -
  have "CHR '','' \<notin> insert CHR ''-'' (set ''0123456789'')" by simp
  with int_str_chars [of i] show ?thesis by blast
qed

lemma int_str_inj: "int_str i = int_str j \<Longrightarrow> i = j"
proof -
  assume eq: "int_str i = int_str j"
  have "CHR ''-'' \<notin> set ''0123456789''" by simp
  with nat_str_digits have no_minus: "CHR ''-'' \<notin> set (nat_str n)" for n
    by blast
  show ?thesis
  proof (cases "i < 0")
    case True
    show ?thesis
    proof (cases "j < 0")
      case j: True
      with True eq have "nat_str (nat (- i)) = nat_str (nat (- j))"
        by (simp add: int_str_def)
      then have "nat (- i) = nat (- j)" by (rule nat_str_inj)
      with True j show ?thesis by simp
    next
      case False
      with True eq have "CHR ''-'' # nat_str (nat (- i)) = nat_str (nat j)"
        by (simp add: int_str_def)
      then have "CHR ''-'' \<in> set (nat_str (nat j))" by (metis list.set_intros(1))
      with no_minus show ?thesis by simp
    qed
  next
    case False
    show ?thesis
    proof (cases "j < 0")
      case True
      with False eq have "nat_str (nat i) = CHR ''-'' # nat_str (nat (- j))"
        by (simp add: int_str_def)
      then have "CHR ''-'' \<in> set (nat_str (nat i))" by (metis list.set_intros(1))
      with no_minus show ?thesis by simp
    next
      case j: False
      with False eq have "nat_str (nat i) = nat_str (nat j)"
        by (simp add: int_str_def)
      then have "nat i = nat j" by (rule nat_str_inj)
      with False j show ?thesis by simp
    qed
  qed
qed

lemma split_at_separator:
  "a @ c # b = a' @ c # b' \<Longrightarrow> c \<notin> set a \<Longrightarrow> c \<notin> set a' \<Longrightarrow> a = a' \<and> b = b'"
proof (induction a arbitrary: a')
  case Nil
  then show ?case by (cases a') auto
next
  case (Cons h t)
  then show ?case by (cases a') auto
qed

lemma generateAddress_inj:
  assumes "generateAddress x y z = generateAddress x' y' z'"
  shows "x = x' \<and> y = y' \<and> z = z'"
proof -
  from assms have "int_str x @ CHR '','' # (int_str y @ CHR '','' # int_str z)
      = int_str x' @ CHR '','' # (int_str y' @ CHR '','' # int_str z')"
    by (simp add: generateAddress_def)
  from split_at_separator [OF this int_str_no_comma int_str_no_comma]
  have x: "int_str x = int_str x'"
    and r: "int_str y @ CHR '','' # int_str z = int_str y' @ CHR '','' # int_str z'"
    by simp_all
  from split_at_separator [OF r int_str_no_comma int_str_no_comma]
  have "int_str y = int_str y'" "int_str z = int_str z'" by simp_all
  with x show ?thesis by (simp add: int_str_inj)
qed

section \<open>Where nodes come from\<close>

lemma findNode_createNodeIfNeeded_other:
  assumes "x \<noteq> a \<or> y \<noteq> b \<or> z \<noteq> c"
  shows "findNode (snd (createNodeIfNeeded s x y z rows cols)) a b c = findNode s a b c"
proof (cases "findNode s x y z")
  case (Some i)
  then show ?thesis by (simp add: createNodeIfNeeded_def)
next
  case None
  show ?thesis
  proof (cases "new_grid rows cols")
    case (Inl e)
    with None show ?thesis by (simp add: createNodeIfNeeded_def)
  next
    case (Inr g)
    from assms have "(a, b, c) \<noteq> (x, y, z)" by auto
    then have "findNode (s\<lparr>nodes := nodes s @ [\<lparr>xx = x, yy = y, zz = z, val = g\<rparr>],
        usedAddresses := insert (generateAddress x y z) (usedAddresses s)\<rparr>) a b c = findNode s a b c"
      by (rule findNode_appended_other)
    with None Inr show ?thesis by (simp add: createNodeIfNeeded_def)
  qed
qed

lemma usedAddresses_createNodeIfNeeded:
  "usedAddresses (snd (createNodeIfNeeded s x y z rows cols))
     \<subseteq> insert (generateAddress x y z) (usedAddresses s)"
  by (auto simp: createNodeIfNeeded_def split: option.splits sum.splits)

lemma findNode_expand_and_store:
  "findNode (snd (expand_and_store s i r c v)) a b d = findNode s a b d"
  by (simp add: expand_and_store_def findNode_set_val split: sum.splits)

lemma usedAddresses_expand_and_store:
  "usedAddresses (snd (expand_and_store s i r c v)) = usedAddresses s"
  by (simp add: expand_and_store_def usedAddresses_set_val split: sum.splits)

lemma findNode_set_cell_other:
  assumes "x \<noteq> a \<or> y \<noteq> b \<or> z \<noteq> c"
  shows "findNode (snd (set_cell s x y z r col v)) a b c = findNode s a b c"
proof (cases "findNode s x y z")
  case (Some i)
  then show ?thesis by (simp add: set_cell_def findNode_expand_and_store)
next
  case None
  obtain res s' where cr: "createNodeIfNeeded s x y z (r + 1) (col + 1) = (res, s')"
    by (cases "createNodeIfNeeded s x y z (r + 1) (col + 1)")
  from findNode_createNodeIfNeeded_other [OF assms, of s "r + 1" "col + 1"] cr
  have s': "findNode s' a b c = findNode s a b c" by simp
  show ?thesis
    using None cr s' by (cases res) (simp_all add: set_cell_def findNode_expand_and_store)
qed

lemma usedAddresses_set_cell:
  "usedAddresses (snd (set_cell s x y z r col v)) \<subseteq> insert (generateAddress x y z) (usedAddresses s)"
proof (cases "findNode s x y z")
  case (Some i)
  then show ?thesis by (auto simp: set_cell_def usedAddresses_expand_and_store)
next
  case None
  obtain res s' where cr: "createNodeIfNeeded s x y z (r + 1) (col + 1) = (res, s')"
    by (cases "createNodeIfNeeded s x y z (r + 1) (col + 1)")
  from usedAddresses_createNodeIfNeeded [of s x y z "r + 1" "col + 1"] cr
  have s': "usedAddresses s' \<subseteq> insert (generateAddress x y z) (usedAddresses s)" by simp
  show ?thesis
    using None cr s' by (cases res) (simp_all add: set_cell_def usedAddresses_expand_and_store)
qed

lemma findNode_setMatrix_other:
  assumes "x \<noteq> a \<or> y \<noteq> b \<or> z \<noteq> c"
  shows "findNode (snd (setMatrix s x y z m)) a b c = findNode s a b c"
proof (cases "findNode s x y z")
  case (Some i)
  then show ?thesis by (simp add: setMatrix_existing findNode_set_val)
next
  case None
  from assms have "(a, b, c) \<noteq> (x, y, z)" by auto
  then have "findNode (s\<lparr>nodes := nodes s @ [\<lparr>xx = x, yy = y, zz = z, val = m\<rparr>],
        usedAddresses := insert (generateAddress x y z) (usedAddresses s)\<rparr>) a b c = findNode s a b c"
    by (rule findNode_appended_other)
  then show ?thesis by (simp add: setMatrix_new [OF None])
qed

lemma usedAddresses_setMatrix:
  "usedAddresses (snd (setMatrix s x y z m)) \<subseteq> insert (generateAddress x y z) (usedAddresses s)"
proof (cases "findNode s x y z")
  case (Some i)
  then show ?thesis by (auto simp: setMatrix_existing usedAddresses_set_val)
next
  case None
  then show ?thesis by (simp add: setMatrix_new)
qed

lemma usedAddresses_update: "usedAddresses (update s) = usedAddresses s"
  by (simp add: update_eq)

lemma findNode_exec:
  "\<not> writes_to p a b c \<Longrightarrow> findNode (snd (exec s p)) a b c = findNode s a b c"
proof (cases p)
  case (OpSetMatrix x y z m)
  assume "\<not> writes_to p a b c"
  with OpSetMatrix have "x \<noteq> a \<or> y \<noteq> b \<or> z \<noteq> c" by simp
  from findNode_setMatrix_other [OF this] OpSetMatrix show ?thesis by simp
next
  case (OpSet x y z r col v)
  assume "\<not> writes_to p a b c"
  with OpSet have "x \<noteq> a \<or> y \<noteq> b \<or> z \<noteq> c" by simp
  from findNode_set_cell_other [OF this] OpSet show ?thesis by simp
qed (simp_all add: findNode_update)

lemma usedAddresses_exec:
  assumes "A \<in> usedAddresses (snd (exec s p))"
  shows "A \<in> usedAddresses s \<or> (\<exists>x y z. writes_to p x y z \<and> A = generateAddress x y z)"
proof (cases p)
  case (OpSetMatrix x y z m)
  with assms usedAddresses_setMatrix [of s x y z m] have "A \<in> usedAddresses s \<or> A = generateAddress x y z"
    by auto
  with OpSetMatrix show ?thesis by auto
next
  case (OpSet x y z r col v)
  with assms usedAddresses_set_cell [of s x y z r col v] have "A \<in> usedAddresses s \<or> A = generateAddress x y z"
    by auto
  with OpSet show ?thesis by auto
qed (use assms in \<open>simp_all add: usedAddresses_update\<close>)

subsection \<open>Runs with direct calls of \<open>createNodeIfNeeded\<close>\<close>

lemma findNode_step:
  "\<not> targets c a b d \<Longrightarrow> findNode (step s c) a b d = findNode s a b d"
proof (cases c)
  case (Call p)
  assume "\<not> targets c a b d"
  with Call show ?thesis by (simp add: findNode_exec)
next
  case (CallCreateNodeIfNeeded x y z rows cols)
  assume "\<not> targets c a b d"
  with CallCreateNodeIfNeeded have "x \<noteq> a \<or> y \<noteq> b \<or> z \<noteq> d" by simp
  from findNode_createNodeIfNeeded_other [OF this] CallCreateNodeIfNeeded show ?thesis by simp
qed

lemma usedAddresses_step:
  assumes "A \<in> usedAddresses (step s c)"
  shows "A \<in> usedAddresses s \<or> (\<exists>x y z. targets c x y z \<and> A = generateAddress x y z)"
proof (cases c)
  case (Call p)
  with assms usedAddresses_exec [of A s p] show ?thesis by auto
next
  case (CallCreateNodeIfNeeded x y z rows cols)
  with assms usedAddresses_createNodeIfNeeded [of s x y z rows cols]
  have "A \<in> usedAddresses s \<or> A = generateAddress x y z" by auto
  with CallCreateNodeIfNeeded show ?thesis by auto
qed

lemma findNode_run_calls:
  "findNode (run_calls s cs) a b d \<noteq> None \<Longrightarrow>
     findNode s a b d \<noteq> None \<or> (\<exists>c \<in> set cs. targets c a b d)"
proof (induction cs arbitrary: s)
  case Nil
  then show ?case by simp
next
  case (Cons c cs)
  from Cons.prems have "findNode (run_calls (step s c) cs) a b d \<noteq> None" by simp
  from Cons.IH [OF this] show ?case
  proof
    assume f: "findNode (step s c) a b d \<noteq> None"
    show ?thesis
    proof (cases "targets c a b d")
      case True
      then show ?thesis by simp
    next
      case False
      with f findNode_step [OF False, of s] show ?thesis by simp
    qed
  next
    assume "\<exists>c \<in> set cs. targets c a b d"
    then show ?thesis by auto
  qed
qed

lemma usedAddresses_run_calls:
  "A \<in> usedAddresses (run_calls s cs) \<Longrightarrow>
     A \<in> usedAddresses s \<or> (\<exists>c \<in> set cs. \<exists>x y z. targets c x y z \<and> A = generateAddress x y z)"
proof (induction cs arbitrary: s)
  case Nil
  then show ?case by simp
next
  case (Cons c cs)
  from Cons.prems have "A \<in> usedAddresses (run_calls (step s c) cs)" by simp
  from Cons.IH [OF this] show ?case
  proof
    assume "A \<in> usedAddresses (step s c)"
    from usedAddresses_step [OF this] show ?thesis by auto
  next
    assume "\<exists>c \<in> set cs. \<exists>x y z. targets c x y z \<and> A = generateAddress x y z"
    then show ?thesis by auto
  qed
qed

lemma targets_cases:
  "targets c x y z \<Longrightarrow>
     (\<exists>r col v. c = Call (OpSet x y z r col v)) \<or> (\<exists>m. c = Call (OpSetMatrix x y z m)) \<or>
     (\<exists>rows cols. c = CallCreateNodeIfNeeded x y z rows cols)"
proof (cases c)
  case (Call p)
  assume "targets c x y z"
  with Call show ?thesis by (cases p) auto
next
  case (CallCreateNodeIfNeeded x' y' z' rows cols)
  assume "targets c x y z"
  with CallCreateNodeIfNeeded show ?thesis by simp
qed

section \<open>Arrays as objects: the loops in closed form\<close>

lemma with_rows_0: "with_rows s 0 cols = s"
  by (rule rstore.equality) (auto simp: with_rows_def fun_eq_iff)

lemma with_rows_new_row:
  "with_rows (snd (new_row s (replicate cols (Num 0)))) k cols = with_rows s (Suc k) cols"
  by (rule rstore.equality) (auto simp: with_rows_def new_row_def fun_eq_iff)

lemma with_rows_fields:
  "rnodes (with_rows s k cols) = rnodes s"
  "rusedAddresses (with_rows s k cols) = rusedAddresses s"
  "outer_arrays (with_rows s k cols) = outer_arrays s"
  "outer_next (with_rows s k cols) = outer_next s"
  "row_next (with_rows s k cols) = row_next s + k"
  by (simp_all add: with_rows_def)

lemma row_arrays_with_rows:
  "row_arrays (with_rows s k cols) r =
     (if row_next s \<le> r \<and> r < row_next s + k then replicate cols (Num 0) else row_arrays s r)"
  by (simp add: with_rows_def)

lemma new_rows_eq:
  "new_rows s k cols = ([row_next s..<row_next s + k], with_rows s k cols)"
proof (induction k arbitrary: s)
  case 0
  then show ?case by (simp add: with_rows_0)
next
  case (Suc k)
  define s1 where "s1 = snd (new_row s (replicate cols (Num 0)))"
  have n: "new_row s (replicate cols (Num 0)) = (row_next s, s1)"
    by (simp add: s1_def new_row_def)
  have r1: "row_next s1 = Suc (row_next s)"
    by (simp add: s1_def new_row_def)
  have "new_rows s (Suc k) cols = (row_next s # [row_next s1..<row_next s1 + k], with_rows s1 k cols)"
    by (simp add: n Suc.IH)
  also have "row_next s # [row_next s1..<row_next s1 + k] = [row_next s..<row_next s + Suc k]"
    by (simp add: r1 upt_conv_Cons)
  also have "with_rows s1 k cols = with_rows s (Suc k) cols"
    unfolding s1_def by (rule with_rows_new_row)
  finally show ?case .
qed

lemma push_rows_ref_eq:
  "push_rows_ref s a r cols =
     (with_rows s (nat (r + 1 - int (length (outer_arrays s a)))) cols)
       \<lparr>outer_arrays := (outer_arrays s)
          (a := outer_arrays s a @
                  [row_next s..<row_next s + nat (r + 1 - int (length (outer_arrays s a)))])\<rparr>"
proof (induction s a r cols rule: push_rows_ref.induct)
  case (1 s a r cols)
  show ?case
  proof (cases "int (length (outer_arrays s a)) \<le> r")
    case True
    define s1 where "s1 = push_new_row s a cols"
    define m where "m = nat (r + 1 - int (length (outer_arrays s1 a)))"
    have o1: "outer_arrays s1 = (outer_arrays s)(a := outer_arrays s a @ [row_next s])"
      and r1: "row_next s1 = Suc (row_next s)"
      by (simp_all add: s1_def push_new_row_def new_row_def)
    have m: "nat (r + 1 - int (length (outer_arrays s a))) = Suc m"
      using True by (simp add: m_def o1)
    have "push_rows_ref s a r cols = push_rows_ref s1 a r cols"
      using True by (subst push_rows_ref.simps) (simp add: s1_def)
    also have "\<dots> = (with_rows s1 m cols)
       \<lparr>outer_arrays := (outer_arrays s1)(a := outer_arrays s1 a @ [row_next s1..<row_next s1 + m])\<rparr>"
      using "1.IH" [OF True] unfolding s1_def m_def .
    also have "\<dots> = (with_rows s (Suc m) cols)
       \<lparr>outer_arrays := (outer_arrays s)(a := outer_arrays s a @ [row_next s..<row_next s + Suc m])\<rparr>"
      by (rule rstore.equality)
         (auto simp: with_rows_def s1_def push_new_row_def new_row_def fun_eq_iff upt_conv_Cons)
    finally show ?thesis unfolding m .
  next
    case False
    then have "nat (r + 1 - int (length (outer_arrays s a))) = 0" by simp
    moreover from False have "push_rows_ref s a r cols = s"
      by (subst push_rows_ref.simps) simp
    ultimately show ?thesis by (simp add: with_rows_0)
  qed
qed

lemma push_cols_idem: "push_cols (push_cols rw c) c = push_cols rw c"
  by (simp add: push_cols_eq)

lemma expand_cols_ref_eq:
  "expand_cols_ref s a r c =
     s\<lparr>row_arrays := (\<lambda>x. if x \<in> set (drop r (outer_arrays s a)) then push_cols (row_arrays s x) c
                           else row_arrays s x)\<rparr>"
proof (induction s a r c rule: expand_cols_ref.induct)
  case (1 s a r c)
  show ?case
  proof (cases "r < length (outer_arrays s a)")
    case True
    define s1 where "s1 = s\<lparr>row_arrays := (row_arrays s)
                   (outer_arrays s a ! r := push_cols (row_arrays s (outer_arrays s a ! r)) c)\<rparr>"
    have o1: "outer_arrays s1 = outer_arrays s" by (simp add: s1_def)
    have d: "drop r (outer_arrays s a) = outer_arrays s a ! r # drop (Suc r) (outer_arrays s a)"
      using True by (simp add: Cons_nth_drop_Suc)
    have "expand_cols_ref s a r c = expand_cols_ref s1 a (r + 1) c"
      using True by (subst expand_cols_ref.simps) (simp add: s1_def)
    also have "\<dots> = s1\<lparr>row_arrays := (\<lambda>x. if x \<in> set (drop (r + 1) (outer_arrays s1 a))
                           then push_cols (row_arrays s1 x) c else row_arrays s1 x)\<rparr>"
      using "1.IH" [OF True] unfolding s1_def .
    also have "\<dots> = s\<lparr>row_arrays := (\<lambda>x. if x \<in> set (drop r (outer_arrays s a))
                           then push_cols (row_arrays s x) c else row_arrays s x)\<rparr>"
      unfolding d
      by (rule rstore.equality) (auto simp: s1_def fun_eq_iff push_cols_idem)
    finally show ?thesis .
  next
    case False
    then show ?thesis by (subst expand_cols_ref.simps) simp
  qed
qed

section \<open>Arrays as objects: the grid of a node\<close>

lemma map_fun_upd_distinct:
  "distinct xs \<Longrightarrow> i < length xs \<Longrightarrow> map (f(xs ! i := y)) xs = (map f xs)[i := y]"
  by (rule nth_equalityI) (auto simp: nth_list_update nth_eq_iff_index_eq)

lemma findNode_ref_Some:
  "findNode_ref s x y z = Some i \<Longrightarrow>
     i < length (rnodes s) \<and> rxx (rnodes s ! i) = x \<and> ryy (rnodes s ! i) = y \<and> rzz (rnodes s ! i) = z"
  unfolding findNode_ref_def by (drule find_first_Some) simp

lemma findNode_ref_cong: "rnodes s' = rnodes s \<Longrightarrow> findNode_ref s' x y z = findNode_ref s x y z"
  by (simp add: findNode_ref_def)

lemma get_ref_grid:
  assumes "findNode_ref s x y z = Some i"
  shows "get_ref s x y z r c =
     (if 0 \<le> r \<and> r < int (length (grid_of s (rvalue (rnodes s ! i)))) \<and>
         0 \<le> c \<and> c < int (length (grid_of s (rvalue (rnodes s ! i)) ! nat r))
      then Inr (grid_of s (rvalue (rnodes s ! i)) ! nat r ! nat c)
      else Inl IndexOutOfBounds)"
proof (cases "0 \<le> r \<and> r < int (length (outer_arrays s (rvalue (rnodes s ! i))))")
  case True
  then have "nat r < length (outer_arrays s (rvalue (rnodes s ! i)))"
    by (simp add: nat_less_iff)
  then have "grid_of s (rvalue (rnodes s ! i)) ! nat r
      = row_arrays s (outer_arrays s (rvalue (rnodes s ! i)) ! nat r)"
    by (simp add: grid_of_def)
  with assms True show ?thesis
    by (simp add: get_ref_def Let_def grid_of_def)
next
  case False
  with assms show ?thesis
    by (auto simp: get_ref_def Let_def grid_of_def)
qed

text \<open>The fields that the expansion leaves alone, and the outer array after it.\<close>

lemma push_rows_ref_fields:
  "rnodes (push_rows_ref s a r cols) = rnodes s"
  "rusedAddresses (push_rows_ref s a r cols) = rusedAddresses s"
  "outer_next (push_rows_ref s a r cols) = outer_next s"
  "row_next (push_rows_ref s a r cols) = row_next s + nat (r + 1 - int (length (outer_arrays s a)))"
  "outer_arrays (push_rows_ref s a r cols) a =
     outer_arrays s a @ [row_next s..<row_next s + nat (r + 1 - int (length (outer_arrays s a)))]"
  "b \<noteq> a \<Longrightarrow> outer_arrays (push_rows_ref s a r cols) b = outer_arrays s b"
  "row_arrays (push_rows_ref s a r cols) x =
     (if row_next s \<le> x \<and> x < row_next s + nat (r + 1 - int (length (outer_arrays s a)))
      then replicate cols (Num 0) else row_arrays s x)"
  by (simp_all add: push_rows_ref_eq with_rows_fields row_arrays_with_rows)

lemma expand_cols_ref_fields:
  "rnodes (expand_cols_ref s a r c) = rnodes s"
  "rusedAddresses (expand_cols_ref s a r c) = rusedAddresses s"
  "outer_next (expand_cols_ref s a r c) = outer_next s"
  "row_next (expand_cols_ref s a r c) = row_next s"
  "outer_arrays (expand_cols_ref s a r c) = outer_arrays s"
  "row_arrays (expand_cols_ref s a r c) x =
     (if x \<in> set (drop r (outer_arrays s a)) then push_cols (row_arrays s x) c else row_arrays s x)"
  by (simp_all add: expand_cols_ref_eq)

lemma grid_of_push_rows_ref:
  assumes "\<forall>x \<in> set (outer_arrays s a). x < row_next s"
  shows "grid_of (push_rows_ref s a r (if grid_of s a = [] then 0 else length (grid_of s a ! 0))) a
           = rows_pushed (grid_of s a) r"
proof -
  define cols where "cols = (if grid_of s a = [] then 0 else length (grid_of s a ! 0))"
  define m where "m = nat (r + 1 - int (length (outer_arrays s a)))"
  have old: "map (row_arrays (push_rows_ref s a r cols)) (outer_arrays s a)
      = map (row_arrays s) (outer_arrays s a)"
    using assms by (intro map_cong) (auto simp: push_rows_ref_fields)
  have new: "map (row_arrays (push_rows_ref s a r cols)) [row_next s..<row_next s + m]
      = replicate m (replicate cols (Num 0))"
    by (rule nth_equalityI) (simp_all add: push_rows_ref_fields m_def)
  have "grid_of (push_rows_ref s a r cols) a
      = map (row_arrays s) (outer_arrays s a) @ replicate m (replicate cols (Num 0))"
    by (simp add: grid_of_def push_rows_ref_fields old new [unfolded m_def] m_def)
  also have "\<dots> = rows_pushed (grid_of s a) r"
    by (simp add: rows_pushed_def grid_of_def m_def cols_def)
  finally show ?thesis unfolding cols_def .
qed

lemma grid_of_expand_cols_ref:
  "grid_of (expand_cols_ref s a 0 c) a = map (\<lambda>rw. push_cols rw c) (grid_of s a)"
  by (simp add: grid_of_def expand_cols_ref_fields)

lemma separate_rows_push_rows_ref:
  assumes "separate_rows s a"
  shows "separate_rows (push_rows_ref s a r cols) a"
  using assms by (auto simp: separate_rows_def push_rows_ref_fields)

lemma separate_rows_cong:
  "outer_arrays s' a = outer_arrays s a \<Longrightarrow> row_next s' = row_next s \<Longrightarrow>
     separate_rows s' a = separate_rows s a"
  by (simp add: separate_rows_def)

text \<open>
  The expansion of a node whose rows are allocated arrays does to the grid of the node
  what \<open>expandMatrixIfNeeded\<close> does to the grid as a value.
\<close>

lemma expandMatrixIfNeeded_ref_grid:
  assumes "\<forall>x \<in> set (outer_arrays s a). x < row_next s"
  shows "fst (expandMatrixIfNeeded_ref s a r c)
           = map_sum id (\<lambda>g. ()) (expandMatrixIfNeeded (grid_of s a) r c)"
    and "expandMatrixIfNeeded (grid_of s a) r c = Inr g' \<Longrightarrow>
           grid_of (snd (expandMatrixIfNeeded_ref s a r c)) a = g'"
proof -
  define cols where "cols = (if grid_of s a = [] then 0 else length (grid_of s a ! 0))"
  define s1 where "s1 = push_rows_ref s a r cols"
  have cols: "(if length (outer_arrays s a) > 0 then length (row_arrays s (outer_arrays s a ! 0)) else 0)
      = cols"
    by (cases "outer_arrays s a") (simp_all add: cols_def grid_of_def)
  have g1: "grid_of s1 a = rows_pushed (grid_of s a) r"
    unfolding s1_def cols_def using assms by (rule grid_of_push_rows_ref)
  have e: "expandMatrixIfNeeded_ref s a r c =
      (case outer_arrays s1 a of
         [] \<Rightarrow> (Inl TypeError, s1)
       | r0 # _ \<Rightarrow> if c \<ge> int (length (row_arrays s1 r0)) then (Inr (), expand_cols_ref s1 a 0 c)
                   else (Inr (), s1))"
    unfolding expandMatrixIfNeeded_ref_def Let_def cols s1_def ..
  show "fst (expandMatrixIfNeeded_ref s a r c)
           = map_sum id (\<lambda>g. ()) (expandMatrixIfNeeded (grid_of s a) r c)"
  proof (cases "outer_arrays s1 a")
    case Nil
    then have "grid_of s1 a = []" by (simp add: grid_of_def)
    with g1 Nil show ?thesis
      by (simp add: e expandMatrixIfNeeded_closed)
  next
    case (Cons r0 rs)
    then have "grid_of s1 a ! 0 = row_arrays s1 r0" "grid_of s1 a \<noteq> []"
      by (simp_all add: grid_of_def)
    with g1 Cons show ?thesis
      by (simp add: e expandMatrixIfNeeded_closed)
  qed
  show "grid_of (snd (expandMatrixIfNeeded_ref s a r c)) a = g'"
    if g': "expandMatrixIfNeeded (grid_of s a) r c = Inr g'"
  proof (cases "outer_arrays s1 a")
    case Nil
    then have "grid_of s1 a = []" by (simp add: grid_of_def)
    with g1 g' show ?thesis
      by (simp add: expandMatrixIfNeeded_closed)
  next
    case (Cons r0 rs)
    then have "grid_of s1 a ! 0 = row_arrays s1 r0" "grid_of s1 a \<noteq> []"
      by (simp_all add: grid_of_def)
    with g1 g' Cons show ?thesis
      by (auto simp: e expandMatrixIfNeeded_closed grid_of_expand_cols_ref split: if_splits)
  qed
qed

lemma expandMatrixIfNeeded_ref_fields:
  "rnodes (snd (expandMatrixIfNeeded_ref s a r c)) = rnodes s"
  "rusedAddresses (snd (expandMatrixIfNeeded_ref s a r c)) = rusedAddresses s"
  "outer_next (snd (expandMatrixIfNeeded_ref s a r c)) = outer_next s"
  "outer_arrays (snd (expandMatrixIfNeeded_ref s a r c)) a =
     outer_arrays s a @ [row_next s..<row_next s + nat (r + 1 - int (length (outer_arrays s a)))]"
  "row_next (snd (expandMatrixIfNeeded_ref s a r c))
     = row_next s + nat (r + 1 - int (length (outer_arrays s a)))"
  by (simp_all add: expandMatrixIfNeeded_ref_def Let_def push_rows_ref_fields expand_cols_ref_fields
        split: list.splits)

lemma expandMatrixIfNeeded_ref_succeeds:
  "0 \<le> r \<Longrightarrow> fst (expandMatrixIfNeeded_ref s a r c) = Inr ()"
  by (auto simp: expandMatrixIfNeeded_ref_def Let_def push_rows_ref_fields split: list.splits)

lemma separate_rows_expandMatrixIfNeeded_ref:
  assumes "separate_rows s a"
  shows "separate_rows (snd (expandMatrixIfNeeded_ref s a r c)) a"
  using assms by (auto simp: separate_rows_def expandMatrixIfNeeded_ref_fields)

section \<open>Arrays as objects: what a write does\<close>

lemma store_cell_ref_fields:
  "rnodes (snd (store_cell_ref s a r c v)) = rnodes s"
  "rusedAddresses (snd (store_cell_ref s a r c v)) = rusedAddresses s"
  "outer_next (snd (store_cell_ref s a r c v)) = outer_next s"
  "row_next (snd (store_cell_ref s a r c v)) = row_next s"
  "outer_arrays (snd (store_cell_ref s a r c v)) = outer_arrays s"
  by (simp_all add: store_cell_ref_def)

lemma store_cell_ref_succeeds:
  "0 \<le> r \<Longrightarrow> nat r < length (outer_arrays s a) \<Longrightarrow> fst (store_cell_ref s a r c v) = Inr ()"
  by (simp add: store_cell_ref_def)

lemma store_cell_ref_target:
  assumes "0 \<le> r" and "nat r < length (outer_arrays s a)"
  shows "row_arrays (snd (store_cell_ref s a r c v)) (outer_arrays s a ! nat r)
           = store_elem (row_arrays s (outer_arrays s a ! nat r)) c v"
  using assms by (simp add: store_cell_ref_def)

lemma store_cell_ref_grid:
  assumes "distinct (outer_arrays s a)" and "store_cell (grid_of s a) r c v = Inr g''"
  shows "fst (store_cell_ref s a r c v) = Inr ()"
    and "grid_of (snd (store_cell_ref s a r c v)) a = g''"
proof -
  note w = store_cell_Inr [OF assms(2)]
  from w(2) have r: "nat r < length (outer_arrays s a)" by (simp add: grid_of_def)
  show "fst (store_cell_ref s a r c v) = Inr ()"
    using w(1) r by (rule store_cell_ref_succeeds)
  have "grid_of (snd (store_cell_ref s a r c v)) a =
      (map (row_arrays s) (outer_arrays s a))
        [nat r := store_elem (row_arrays s (outer_arrays s a ! nat r)) c v]"
    using w(1) r assms(1) by (simp add: grid_of_def store_cell_ref_def map_fun_upd_distinct)
  also have "\<dots> = g''"
    using r by (simp add: w(3) grid_of_def)
  finally show "grid_of (snd (store_cell_ref s a r c v)) a = g''" .
qed

lemma expand_and_store_ref_fields:
  "rnodes (snd (expand_and_store_ref s i r c v)) = rnodes s"
  "rusedAddresses (snd (expand_and_store_ref s i r c v)) = rusedAddresses s"
  by (auto simp: expand_and_store_ref_def store_cell_ref_fields split: prod.splits sum.splits
     dest: arg_cong [where f = "\<lambda>p. rnodes (snd p)"] arg_cong [where f = "\<lambda>p. rusedAddresses (snd p)"]
     simp: expandMatrixIfNeeded_ref_fields)

lemma expand_and_store_ref_target:
  assumes r: "0 \<le> r" and c: "0 \<le> c"
  shows "fst (expand_and_store_ref s i r c v) = Inr ()"
    and "nat r < length (outer_arrays (snd (expand_and_store_ref s i r c v)) (rvalue (rnodes s ! i)))"
    and "nat c < length (row_arrays (snd (expand_and_store_ref s i r c v))
            (outer_arrays (snd (expand_and_store_ref s i r c v)) (rvalue (rnodes s ! i)) ! nat r))"
    and "row_arrays (snd (expand_and_store_ref s i r c v))
            (outer_arrays (snd (expand_and_store_ref s i r c v)) (rvalue (rnodes s ! i)) ! nat r) ! nat c = v"
proof -
  define a where "a = rvalue (rnodes s ! i)"
  define s1 where "s1 = snd (expandMatrixIfNeeded_ref s a r c)"
  have e: "expandMatrixIfNeeded_ref s a r c = (Inr (), s1)"
    using expandMatrixIfNeeded_ref_succeeds [OF r, of s a c]
    by (cases "expandMatrixIfNeeded_ref s a r c") (simp add: s1_def)
  have es: "expand_and_store_ref s i r c v = store_cell_ref s1 a r c v"
    by (simp add: expand_and_store_ref_def a_def [symmetric] e)
  have l1: "nat r < length (outer_arrays s1 a)"
    using r by (simp add: s1_def expandMatrixIfNeeded_ref_fields)
  show "fst (expand_and_store_ref s i r c v) = Inr ()"
    unfolding es using r l1 by (rule store_cell_ref_succeeds)
  have o: "outer_arrays (snd (store_cell_ref s1 a r c v)) = outer_arrays s1"
    by (rule store_cell_ref_fields)
  show "nat r < length (outer_arrays (snd (expand_and_store_ref s i r c v)) (rvalue (rnodes s ! i)))"
    unfolding es a_def [symmetric] o using l1 .
  have row: "row_arrays (snd (store_cell_ref s1 a r c v)) (outer_arrays s1 a ! nat r)
      = store_elem (row_arrays s1 (outer_arrays s1 a ! nat r)) c v"
    using r l1 by (rule store_cell_ref_target)
  show "nat c < length (row_arrays (snd (expand_and_store_ref s i r c v))
            (outer_arrays (snd (expand_and_store_ref s i r c v)) (rvalue (rnodes s ! i)) ! nat r))"
    unfolding es a_def [symmetric] o row using c by (simp add: length_store_elem)
  show "row_arrays (snd (expand_and_store_ref s i r c v))
            (outer_arrays (snd (expand_and_store_ref s i r c v)) (rvalue (rnodes s ! i)) ! nat r) ! nat c = v"
    unfolding es a_def [symmetric] o row using c by (rule store_elem_at)
qed

lemma expand_and_store_ref_grid:
  assumes sep: "separate_rows s (rvalue (rnodes s ! i))"
    and e: "expandMatrixIfNeeded (grid_of s (rvalue (rnodes s ! i))) r c = Inr g'"
    and w: "store_cell g' r c v = Inr g''"
  shows "fst (expand_and_store_ref s i r c v) = Inr ()"
    and "grid_of (snd (expand_and_store_ref s i r c v)) (rvalue (rnodes s ! i)) = g''"
    and "separate_rows (snd (expand_and_store_ref s i r c v)) (rvalue (rnodes s ! i))"
proof -
  define a where "a = rvalue (rnodes s ! i)"
  define s1 where "s1 = snd (expandMatrixIfNeeded_ref s a r c)"
  from sep have alloc: "\<forall>x \<in> set (outer_arrays s a). x < row_next s"
    by (simp add: separate_rows_def a_def)
  have "fst (expandMatrixIfNeeded_ref s a r c) = Inr ()"
    using expandMatrixIfNeeded_ref_grid(1) [OF alloc, of r c] e by (simp add: a_def)
  then have ex: "expandMatrixIfNeeded_ref s a r c = (Inr (), s1)"
    by (cases "expandMatrixIfNeeded_ref s a r c") (simp add: s1_def)
  have es: "expand_and_store_ref s i r c v = store_cell_ref s1 a r c v"
    by (simp add: expand_and_store_ref_def a_def [symmetric] ex)
  have g1: "grid_of s1 a = g'"
    unfolding s1_def using alloc e [folded a_def] by (rule expandMatrixIfNeeded_ref_grid(2))
  have sep1: "separate_rows s1 a"
    unfolding s1_def using sep [folded a_def] by (rule separate_rows_expandMatrixIfNeeded_ref)
  then have d1: "distinct (outer_arrays s1 a)" by (simp add: separate_rows_def)
  from w have w1: "store_cell (grid_of s1 a) r c v = Inr g''" by (simp add: g1)
  show "fst (expand_and_store_ref s i r c v) = Inr ()"
    unfolding es using d1 w1 by (rule store_cell_ref_grid(1))
  show "grid_of (snd (expand_and_store_ref s i r c v)) (rvalue (rnodes s ! i)) = g''"
    unfolding es a_def [symmetric] using d1 w1 by (rule store_cell_ref_grid(2))
  show "separate_rows (snd (expand_and_store_ref s i r c v)) (rvalue (rnodes s ! i))"
    unfolding es a_def [symmetric] using sep1
    by (simp add: separate_rows_def store_cell_ref_fields)
qed

text \<open>Creation of a node with a grid of \<open>rows\<close> by \<open>cols\<close> zeros, both valid array lengths.\<close>

lemma createNodeIfNeeded_ref_new:
  assumes f: "findNode_ref s x y z = None"
    and rows: "0 < rows" "rows \<le> max_length" and cols: "0 \<le> cols" "cols \<le> max_length"
  shows "fst (createNodeIfNeeded_ref s x y z rows cols) = Inr (length (rnodes s))"
    and "rnodes (snd (createNodeIfNeeded_ref s x y z rows cols))
           = rnodes s @ [\<lparr>rxx = x, ryy = y, rzz = z, rvalue = outer_next s\<rparr>]"
    and "rusedAddresses (snd (createNodeIfNeeded_ref s x y z rows cols))
           = insert (generateAddress x y z) (rusedAddresses s)"
    and "grid_of (snd (createNodeIfNeeded_ref s x y z rows cols)) (outer_next s)
           = replicate (nat rows) (replicate (nat cols) (Num 0))"
    and "separate_rows (snd (createNodeIfNeeded_ref s x y z rows cols)) (outer_next s)"
proof -
  define s1 where "s1 = with_rows s (nat rows) (nat cols)"
  define rs where "rs = [row_next s..<row_next s + nat rows]"
  define s2 where "s2 = s1\<lparr>outer_arrays := (outer_arrays s1)(outer_next s1 := rs),
                          outer_next := Suc (outer_next s1)\<rparr>"
  define s3 where "s3 = s2\<lparr>rnodes := rnodes s2 @ [\<lparr>rxx = x, ryy = y, rzz = z, rvalue = outer_next s\<rparr>],
                   rusedAddresses := insert (generateAddress x y z) (rusedAddresses s2)\<rparr>"
  have ng: "new_grid_ref s rows cols = (Inr (outer_next s), s2)"
    using rows cols
    by (simp add: new_grid_ref_def new_rows_eq new_outer_def s2_def s1_def rs_def with_rows_fields)
  have cr: "createNodeIfNeeded_ref s x y z rows cols = (Inr (length (rnodes s)), s3)"
    using f by (simp add: createNodeIfNeeded_ref_def ng s3_def s2_def s1_def with_rows_fields)
  show "fst (createNodeIfNeeded_ref s x y z rows cols) = Inr (length (rnodes s))"
    by (simp add: cr)
  show "rnodes (snd (createNodeIfNeeded_ref s x y z rows cols))
           = rnodes s @ [\<lparr>rxx = x, ryy = y, rzz = z, rvalue = outer_next s\<rparr>]"
    by (simp add: cr s3_def s2_def s1_def with_rows_fields)
  show "rusedAddresses (snd (createNodeIfNeeded_ref s x y z rows cols))
           = insert (generateAddress x y z) (rusedAddresses s)"
    by (simp add: cr s3_def s2_def s1_def with_rows_fields)
  have o3: "outer_arrays s3 (outer_next s) = rs"
    by (simp add: s3_def s2_def s1_def with_rows_fields)
  have r3: "row_arrays s3 = row_arrays s1" "row_next s3 = row_next s + nat rows"
    by (simp_all add: s3_def s2_def s1_def with_rows_fields)
  have "map (row_arrays s1) rs = replicate (nat rows) (replicate (nat cols) (Num 0))"
    by (rule nth_equalityI) (simp_all add: rs_def s1_def row_arrays_with_rows)
  then show "grid_of (snd (createNodeIfNeeded_ref s x y z rows cols)) (outer_next s)
           = replicate (nat rows) (replicate (nat cols) (Num 0))"
    by (simp add: cr grid_of_def o3 r3)
  show "separate_rows (snd (createNodeIfNeeded_ref s x y z rows cols)) (outer_next s)"
    by (simp add: cr separate_rows_def o3 r3 rs_def)
qed

lemma findNode_ref_snoc:
  assumes "findNode_ref s x y z = None"
    and "rnodes s' = rnodes s @ [\<lparr>rxx = x, ryy = y, rzz = z, rvalue = a\<rparr>]"
  shows "findNode_ref s' x y z = Some (length (rnodes s))"
  using assms by (simp add: findNode_ref_def find_first_snoc)

text \<open>
  A \<open>set\<close> with indices that are array indices, on a node whose rows are separate
  arrays or on an unused address: on the store \<open>s0\<close> (the store itself, or the store with
  the new node) the node's grid is expanded and the cell assigned as in the model by
  value, and the rows of the node stay separate arrays.
\<close>

lemma set_ref_cases:
  assumes r: "0 \<le> r" "r < max_length" and c: "0 \<le> c" "c < max_length"
    and sep: "\<forall>i. findNode_ref s x y z = Some i \<longrightarrow> separate_rows s (rvalue (rnodes s ! i))"
  shows "\<exists>s0 i g' g''. findNode_ref s0 x y z = Some i
    \<and> separate_rows s0 (rvalue (rnodes s0 ! i))
    \<and> expandMatrixIfNeeded (grid_of s0 (rvalue (rnodes s0 ! i))) r c = Inr g'
    \<and> store_cell g' r c v = Inr g''
    \<and> fst (set_ref s x y z r c v) = Inr ()
    \<and> findNode_ref (snd (set_ref s x y z r c v)) x y z = Some i
    \<and> rnodes (snd (set_ref s x y z r c v)) = rnodes s0
    \<and> rusedAddresses (snd (set_ref s x y z r c v)) = rusedAddresses s0
    \<and> grid_of (snd (set_ref s x y z r c v)) (rvalue (rnodes s0 ! i)) = g''
    \<and> separate_rows (snd (set_ref s x y z r c v)) (rvalue (rnodes s0 ! i))
    \<and> (findNode_ref s x y z \<noteq> None \<longrightarrow> s0 = s)
    \<and> (findNode_ref s x y z = None \<longrightarrow>
           rnodes s0 = rnodes s @ [\<lparr>rxx = x, ryy = y, rzz = z, rvalue = outer_next s\<rparr>] \<and>
           rusedAddresses s0 = insert (generateAddress x y z) (rusedAddresses s) \<and>
           i = length (rnodes s) \<and>
           grid_of s0 (outer_next s) = replicate (nat r + 1) (replicate (nat c + 1) (Num 0)))"
proof -
  have main: "\<exists>g' g''. separate_rows s0 (rvalue (rnodes s0 ! i))
    \<and> expandMatrixIfNeeded (grid_of s0 (rvalue (rnodes s0 ! i))) r c = Inr g'
    \<and> store_cell g' r c v = Inr g''
    \<and> fst (expand_and_store_ref s0 i r c v) = Inr ()
    \<and> findNode_ref (snd (expand_and_store_ref s0 i r c v)) x y z = Some i
    \<and> rnodes (snd (expand_and_store_ref s0 i r c v)) = rnodes s0
    \<and> rusedAddresses (snd (expand_and_store_ref s0 i r c v)) = rusedAddresses s0
    \<and> grid_of (snd (expand_and_store_ref s0 i r c v)) (rvalue (rnodes s0 ! i)) = g''
    \<and> separate_rows (snd (expand_and_store_ref s0 i r c v)) (rvalue (rnodes s0 ! i))"
    if f0: "findNode_ref s0 x y z = Some i" and sep0: "separate_rows s0 (rvalue (rnodes s0 ! i))"
    for s0 i
  proof -
    from r(1) obtain g' g'' where e: "expandMatrixIfNeeded (grid_of s0 (rvalue (rnodes s0 ! i))) r c = Inr g'"
      and w: "store_cell g' r c v = Inr g''"
      by (rule write_succeeds)
    note t = expand_and_store_ref_grid [OF sep0 e w]
    have n: "rnodes (snd (expand_and_store_ref s0 i r c v)) = rnodes s0"
      by (rule expand_and_store_ref_fields)
    have "findNode_ref (snd (expand_and_store_ref s0 i r c v)) x y z = Some i"
      using f0 by (simp add: findNode_ref_cong [OF n])
    with sep0 e w t n show ?thesis
      by (simp add: expand_and_store_ref_fields)
  qed
  show ?thesis
  proof (cases "findNode_ref s x y z")
    case (Some i)
    have sc: "set_ref s x y z r c v = expand_and_store_ref s i r c v"
      using Some by (simp add: set_ref_def)
    from main [OF Some sep [rule_format, OF Some]] obtain g' g'' where
      m: "expandMatrixIfNeeded (grid_of s (rvalue (rnodes s ! i))) r c = Inr g'"
        "store_cell g' r c v = Inr g''"
        "fst (expand_and_store_ref s i r c v) = Inr ()"
        "findNode_ref (snd (expand_and_store_ref s i r c v)) x y z = Some i"
        "rnodes (snd (expand_and_store_ref s i r c v)) = rnodes s"
        "rusedAddresses (snd (expand_and_store_ref s i r c v)) = rusedAddresses s"
        "grid_of (snd (expand_and_store_ref s i r c v)) (rvalue (rnodes s ! i)) = g''"
        "separate_rows (snd (expand_and_store_ref s i r c v)) (rvalue (rnodes s ! i))"
      by (elim exE conjE)
    show ?thesis
      unfolding sc
      apply (rule exI [of _ s], rule exI [of _ i], rule exI [of _ g'], rule exI [of _ g''])
      using Some sep [rule_format, OF Some] m by simp
  next
    case None
    define s0 where "s0 = snd (createNodeIfNeeded_ref s x y z (r + 1) (c + 1))"
    define i where "i = length (rnodes s)"
    have rows: "0 < r + 1" "r + 1 \<le> max_length" and cols: "0 \<le> c + 1" "c + 1 \<le> max_length"
      using r c by simp_all
    note cr = createNodeIfNeeded_ref_new [OF None rows cols, folded s0_def]
    have cr0: "createNodeIfNeeded_ref s x y z (r + 1) (c + 1) = (Inr i, s0)"
      using cr(1) by (cases "createNodeIfNeeded_ref s x y z (r + 1) (c + 1)") (simp add: s0_def i_def)
    have sc: "set_ref s x y z r c v = expand_and_store_ref s0 i r c v"
      using None by (simp add: set_ref_def cr0)
    have f0: "findNode_ref s0 x y z = Some i"
      unfolding i_def using None cr(2) by (rule findNode_ref_snoc)
    have a: "rvalue (rnodes s0 ! i) = outer_next s"
      by (simp add: cr(2) i_def)
    have sep0: "separate_rows s0 (rvalue (rnodes s0 ! i))"
      unfolding a by (rule cr(5))
    have z: "grid_of s0 (outer_next s) = replicate (nat r + 1) (replicate (nat c + 1) (Num 0))"
      using cr(4) r(1) c(1) by (simp add: nat_add_distrib)
    from main [OF f0 sep0] obtain g' g'' where
      m: "expandMatrixIfNeeded (grid_of s0 (rvalue (rnodes s0 ! i))) r c = Inr g'"
        "store_cell g' r c v = Inr g''"
        "fst (expand_and_store_ref s0 i r c v) = Inr ()"
        "findNode_ref (snd (expand_and_store_ref s0 i r c v)) x y z = Some i"
        "rnodes (snd (expand_and_store_ref s0 i r c v)) = rnodes s0"
        "rusedAddresses (snd (expand_and_store_ref s0 i r c v)) = rusedAddresses s0"
        "grid_of (snd (expand_and_store_ref s0 i r c v)) (rvalue (rnodes s0 ! i)) = g''"
        "separate_rows (snd (expand_and_store_ref s0 i r c v)) (rvalue (rnodes s0 ! i))"
      by (elim exE conjE)
    show ?thesis
      unfolding sc
    proof (rule exI [of _ s0], rule exI [of _ i], rule exI [of _ g'], rule exI [of _ g''], intro conjI impI)
      show "findNode_ref s0 x y z = Some i" by (rule f0)
      show "separate_rows s0 (rvalue (rnodes s0 ! i))" by (rule sep0)
      show "expandMatrixIfNeeded (grid_of s0 (rvalue (rnodes s0 ! i))) r c = Inr g'" by (rule m(1))
      show "store_cell g' r c v = Inr g''" by (rule m(2))
      show "fst (expand_and_store_ref s0 i r c v) = Inr ()" by (rule m(3))
      show "findNode_ref (snd (expand_and_store_ref s0 i r c v)) x y z = Some i" by (rule m(4))
      show "rnodes (snd (expand_and_store_ref s0 i r c v)) = rnodes s0" by (rule m(5))
      show "rusedAddresses (snd (expand_and_store_ref s0 i r c v)) = rusedAddresses s0" by (rule m(6))
      show "grid_of (snd (expand_and_store_ref s0 i r c v)) (rvalue (rnodes s0 ! i)) = g''" by (rule m(7))
      show "separate_rows (snd (expand_and_store_ref s0 i r c v)) (rvalue (rnodes s0 ! i))" by (rule m(8))
      show "s0 = s" if "findNode_ref s x y z \<noteq> None" using that None by simp
      show "rnodes s0 = rnodes s @ [\<lparr>rxx = x, ryy = y, rzz = z, rvalue = outer_next s\<rparr>]" by (rule cr(2))
      show "rusedAddresses s0 = insert (generateAddress x y z) (rusedAddresses s)" by (rule cr(3))
      show "i = length (rnodes s)" by (rule i_def)
      show "grid_of s0 (outer_next s) = replicate (nat r + 1) (replicate (nat c + 1) (Num 0))" by (rule z)
    qed
  qed
qed

lemma write_zero_grid:
  assumes r: "0 \<le> r" and c: "0 \<le> c"
    and e: "expandMatrixIfNeeded (replicate (nat r + 1) (replicate (nat c + 1) (Num 0))) r c = Inr g'"
    and w: "store_cell g' r c v = Inr g''"
  shows "g'' = (replicate (nat r + 1) (replicate (nat c + 1) (Num 0)))
                 [nat r := (replicate (nat c + 1) (Num 0))[nat c := v]]"
proof -
  define zrow where "zrow = replicate (nat c + 1) (Num 0)"
  define Z where "Z = replicate (nat r + 1) zrow"
  have lz: "length Z = nat r + 1" "length zrow = nat c + 1"
    by (simp_all add: Z_def zrow_def)
  have zr: "Z ! nat r = zrow" "Z ! 0 = zrow"
    unfolding Z_def by (rule nth_replicate, simp)+
  have ex: "expandMatrixIfNeeded Z r c = Inr Z"
    using r c by (intro expandMatrixIfNeeded_in_bounds) (simp_all add: lz zr)
  with e have g': "g' = Z" by (simp add: Z_def zrow_def)
  have st: "store_cell Z r c v = Inr (Z[nat r := store_elem (Z ! nat r) c v])"
    using r by (intro store_cell_row) (simp_all add: lz)
  have se: "store_elem (Z ! nat r) c v = zrow[nat c := v]"
    unfolding zr using c by (intro store_elem_inside) (simp_all add: lz)
  from w st se have "g'' = Z[nat r := zrow[nat c := v]]" by (simp add: g')
  then show ?thesis unfolding Z_def zrow_def .
qed

lemma set_ref_succeeds:
  assumes r: "0 \<le> r" "r < max_length" and c: "0 \<le> c" "c < max_length"
  shows "fst (set_ref s x y z r c v) = Inr ()"
    and "get_ref (snd (set_ref s x y z r c v)) x y z r c = Inr v"
proof -
  have main: "fst (expand_and_store_ref s0 i r c v) = Inr () \<and>
      get_ref (snd (expand_and_store_ref s0 i r c v)) x y z r c = Inr v"
    if f0: "findNode_ref s0 x y z = Some i" for s0 i
  proof -
    define s' where "s' = snd (expand_and_store_ref s0 i r c v)"
    note t = expand_and_store_ref_target [OF r(1) c(1), of s0 i v, folded s'_def]
    have n: "rnodes s' = rnodes s0"
      unfolding s'_def by (rule expand_and_store_ref_fields)
    have f: "findNode_ref s' x y z = Some i"
      using f0 by (simp add: findNode_ref_cong [OF n])
    have "get_ref s' x y z r c = Inr v"
      using t(2,3,4) r(1) c(1) by (simp add: get_ref_def f n Let_def nat_less_iff)
    with t(1) show ?thesis by (simp add: s'_def)
  qed
  have "fst (set_ref s x y z r c v) = Inr () \<and> get_ref (snd (set_ref s x y z r c v)) x y z r c = Inr v"
  proof (cases "findNode_ref s x y z")
    case (Some i)
    have sc: "set_ref s x y z r c v = expand_and_store_ref s i r c v"
      using Some by (simp add: set_ref_def)
    show ?thesis unfolding sc using Some by (rule main)
  next
    case None
    define s0 where "s0 = snd (createNodeIfNeeded_ref s x y z (r + 1) (c + 1))"
    define i where "i = length (rnodes s)"
    have rows: "0 < r + 1" "r + 1 \<le> max_length" and cols: "0 \<le> c + 1" "c + 1 \<le> max_length"
      using r c by simp_all
    note cr = createNodeIfNeeded_ref_new [OF None rows cols, folded s0_def]
    have cr0: "createNodeIfNeeded_ref s x y z (r + 1) (c + 1) = (Inr i, s0)"
      using cr(1) by (cases "createNodeIfNeeded_ref s x y z (r + 1) (c + 1)") (simp add: s0_def i_def)
    have sc: "set_ref s x y z r c v = expand_and_store_ref s0 i r c v"
      using None by (simp add: set_ref_def cr0)
    have f0: "findNode_ref s0 x y z = Some i"
      unfolding i_def using None cr(2) by (rule findNode_ref_snoc)
    show ?thesis unfolding sc using f0 by (rule main)
  qed
  then show "fst (set_ref s x y z r c v) = Inr ()"
    and "get_ref (snd (set_ref s x y z r c v)) x y z r c = Inr v"
    by simp_all
qed

text \<open>
  A \<open>set\<close> on a node with separate rows leaves every other readable cell of the node
  readable, with its value.
\<close>

lemma set_ref_frame:
  assumes r: "0 \<le> r1" "r1 < max_length" and c: "0 \<le> c1" "c1 < max_length"
    and sep: "\<forall>i. findNode_ref s x y z = Some i \<longrightarrow> separate_rows s (rvalue (rnodes s ! i))"
    and g: "get_ref s x y z r c = Inr w" and ne: "r \<noteq> r1 \<or> c \<noteq> c1"
  shows "get_ref (snd (set_ref s x y z r1 c1 v1)) x y z r c = Inr w"
proof -
  from g obtain i where f: "findNode_ref s x y z = Some i"
    by (cases "findNode_ref s x y z") (simp_all add: get_ref_def)
  define a where "a = rvalue (rnodes s ! i)"
  define s' where "s' = snd (set_ref s x y z r1 c1 v1)"
  from g have rd: "0 \<le> r" "r < int (length (grid_of s a))" "0 \<le> c"
      "c < int (length (grid_of s a ! nat r))" "grid_of s a ! nat r ! nat c = w"
    unfolding get_ref_grid [OF f] a_def [symmetric] by (simp_all split: if_splits)
  from set_ref_cases [OF r c sep, where v = v1, folded s'_def]
  obtain s0 i0 g' g'' where f0: "findNode_ref s0 x y z = Some i0"
    and e0: "expandMatrixIfNeeded (grid_of s0 (rvalue (rnodes s0 ! i0))) r1 c1 = Inr g'"
    and st: "store_cell g' r1 c1 v1 = Inr g''"
    and f0': "findNode_ref s' x y z = Some i0"
    and n0: "rnodes s' = rnodes s0"
    and g0: "grid_of s' (rvalue (rnodes s0 ! i0)) = g''"
    and same: "findNode_ref s x y z \<noteq> None \<longrightarrow> s0 = s"
    by (elim exE conjE)
  from same f have s0: "s0 = s" by simp
  from f0 f have i0: "i0 = i" by (simp add: s0)
  have e: "expandMatrixIfNeeded (grid_of s a) r1 c1 = Inr g'"
    using e0 by (simp add: s0 i0 a_def)
  have f': "findNode_ref s' x y z = Some i"
    using f0' by (simp add: i0)
  have n': "rnodes s' = rnodes s"
    using n0 by (simp add: s0)
  have g'': "grid_of s' a = g''"
    using g0 by (simp add: s0 i0 a_def)
  have i: "nat r < length (grid_of s a)" and j: "nat c < length (grid_of s a ! nat r)"
    using rd by (simp_all add: nat_less_iff)
  from rd(1,3) ne have ne': "int (nat r) \<noteq> r1 \<or> int (nat c) \<noteq> c1" by simp
  note t = write_frame [OF e st i j ne']
  have a': "rvalue (rnodes s' ! i) = a" by (simp add: n' a_def)
  show ?thesis
    unfolding s'_def [symmetric] get_ref_grid [OF f'] a' g''
    using t rd by (simp add: nat_less_iff)
qed

section \<open>The claims of the specification\<close>

text \<open>
  C1, as amended. Growth keeps what was written, in a node whose rows are separate
  arrays and for indices that are array indices (from 0 to \<open>max_length - 1\<close>). After
  \<open>set(addr, r0, c0, v0)\<close> and then \<open>set(addr, r1, c1, v1)\<close> with \<open>r1 > r0\<close> or \<open>c1 > c0\<close>,
  \<open>get(addr, r0, c0)\<close> returns \<open>v0\<close>; the node at the address, if there is one before the
  two calls, is supposed to have separate rows, and a node that the first call creates
  has them. More generally a \<open>set\<close> on such a node leaves every other readable cell of
  the node readable with the same value. The expansion of an outer array \<open>a\<close> whose rows
  are allocated, shared or not, succeeds; afterwards the array begins with the row
  arrays it had, in their order, and each of them is at least as long as before, with
  every cell at its old position and with its old value.
\<close>

theorem growth_preserves_separate_rows:
  assumes "0 \<le> r0" and "r0 < max_length" and "0 \<le> c0" and "c0 < max_length"
    and "0 \<le> r1" and "r1 < max_length" and "0 \<le> c1" and "c1 < max_length"
    and "r1 > r0 \<or> c1 > c0"
    and "\<forall>i. findNode_ref s x y z = Some i \<longrightarrow> separate_rows s (rvalue (rnodes s ! i))"
  shows "get_ref (snd (set_ref (snd (set_ref s x y z r0 c0 v0)) x y z r1 c1 v1)) x y z r0 c0 = Inr v0 \<and>
    (get_ref s x y z r c = Inr w \<and> (r \<noteq> r1 \<or> c \<noteq> c1) \<longrightarrow>
       get_ref (snd (set_ref s x y z r1 c1 v1)) x y z r c = Inr w) \<and>
    ((\<forall>p \<in> set (outer_arrays s a). p < row_next s) \<longrightarrow>
       fst (expandMatrixIfNeeded_ref s a r1 c1) = Inr () \<and>
       prefix (outer_arrays s a) (outer_arrays (snd (expandMatrixIfNeeded_ref s a r1 c1)) a) \<and>
       (\<forall>i<length (grid_of s a).
          length (grid_of s a ! i) \<le> length (grid_of (snd (expandMatrixIfNeeded_ref s a r1 c1)) a ! i) \<and>
          (\<forall>j<length (grid_of s a ! i).
             grid_of (snd (expandMatrixIfNeeded_ref s a r1 c1)) a ! i ! j = grid_of s a ! i ! j)))"
proof (intro conjI impI)
  define s1 where "s1 = snd (set_ref s x y z r0 c0 v0)"
  from set_ref_cases [OF assms(1-4,10), where v = v0, folded s1_def]
  obtain s0 :: rstore and i where f1: "findNode_ref s1 x y z = Some i"
    and n1: "rnodes s1 = rnodes s0"
    and sep1: "separate_rows s1 (rvalue (rnodes s0 ! i))"
    by (elim exE conjE)
  have sep: "\<forall>k. findNode_ref s1 x y z = Some k \<longrightarrow> separate_rows s1 (rvalue (rnodes s1 ! k))"
    using sep1 by (simp add: f1 n1)
  have "get_ref s1 x y z r0 c0 = Inr v0"
    unfolding s1_def using assms(1-4) by (rule set_ref_succeeds)
  moreover from assms(9) have "r0 \<noteq> r1 \<or> c0 \<noteq> c1" by auto
  ultimately show "get_ref (snd (set_ref s1 x y z r1 c1 v1)) x y z r0 c0 = Inr v0"
    by (rule set_ref_frame [OF assms(5-8) sep])
next
  assume "get_ref s x y z r c = Inr w \<and> (r \<noteq> r1 \<or> c \<noteq> c1)"
  then have g: "get_ref s x y z r c = Inr w" and ne: "r \<noteq> r1 \<or> c \<noteq> c1" by simp_all
  from assms(5-8,10) g ne show "get_ref (snd (set_ref s x y z r1 c1 v1)) x y z r c = Inr w"
    by (rule set_ref_frame)
next
  assume alloc: "\<forall>p \<in> set (outer_arrays s a). p < row_next s"
  show "fst (expandMatrixIfNeeded_ref s a r1 c1) = Inr ()"
    using assms(5) by (rule expandMatrixIfNeeded_ref_succeeds)
  show "prefix (outer_arrays s a) (outer_arrays (snd (expandMatrixIfNeeded_ref s a r1 c1)) a)"
    by (simp add: expandMatrixIfNeeded_ref_fields)
  from expandMatrixIfNeeded_succeeds [OF assms(5)] obtain g'
    where e: "expandMatrixIfNeeded (grid_of s a) r1 c1 = Inr g'" by blast
  have g': "grid_of (snd (expandMatrixIfNeeded_ref s a r1 c1)) a = g'"
    using alloc e by (rule expandMatrixIfNeeded_ref_grid)
  show "\<forall>i<length (grid_of s a).
          length (grid_of s a ! i) \<le> length (grid_of (snd (expandMatrixIfNeeded_ref s a r1 c1)) a ! i) \<and>
          (\<forall>j<length (grid_of s a ! i).
             grid_of (snd (expandMatrixIfNeeded_ref s a r1 c1)) a ! i ! j = grid_of s a ! i ! j)"
    unfolding g'
  proof (intro allI impI)
    fix i assume "i < length (grid_of s a)"
    then show "length (grid_of s a ! i) \<le> length (g' ! i) \<and>
        (\<forall>j<length (grid_of s a ! i). g' ! i ! j = grid_of s a ! i ! j)"
      using expandMatrixIfNeeded_prefix [OF e] by (simp add: prefix_length_le prefix_nth)
  qed
qed

text \<open>
  On a new store: a write at (0, 0) and then one at (5, 5); a write at (1, 2) and then
  one at (5, 5); and the expansion, for the cell (5, 5), of the grid that the write at
  (1, 2) has made.
\<close>

theorem growth_preserves_separate_rows_witness:
  "get_ref (snd (set_ref (snd (set_ref Memory_ref 0 0 0 0 0 (Num 1))) 0 0 0 5 5 (Num 42))) 0 0 0 0 0
     = Inr (Num 1) \<and>
   get_ref (snd (set_ref (snd (set_ref Memory_ref 0 0 0 1 2 (Num 6))) 0 0 0 5 5 (Num 42))) 0 0 0 1 2
     = Inr (Num 6) \<and>
   fst (expandMatrixIfNeeded_ref (snd (set_ref Memory_ref 0 0 0 1 2 (Num 6))) 0 5 5) = Inr () \<and>
   prefix (outer_arrays (snd (set_ref Memory_ref 0 0 0 1 2 (Num 6))) 0)
     (outer_arrays (snd (expandMatrixIfNeeded_ref (snd (set_ref Memory_ref 0 0 0 1 2 (Num 6))) 0 5 5)) 0)"
proof -
  have b: "(0::int) \<le> 0" "(0::int) < max_length" "(0::int) \<le> 5" "(5::int) < max_length"
    "(0::int) \<le> 1" "(1::int) < max_length" "(0::int) \<le> 2" "(2::int) < max_length"
    by (simp_all add: max_length_def)
  have m: "rnodes Memory_ref = []" "outer_next Memory_ref = 0"
    by (simp_all add: Memory_ref_def)
  have f: "findNode_ref Memory_ref 0 0 0 = None"
    by (simp add: findNode_ref_def m)
  then have sep: "\<forall>i. findNode_ref Memory_ref 0 0 0 = Some i \<longrightarrow>
      separate_rows Memory_ref (rvalue (rnodes Memory_ref ! i))"
    by simp
  have gt: "(5::int) > 0 \<or> (5::int) > 0" by simp
  from growth_preserves_separate_rows [OF b(1,2,1,2,3,4,3,4) gt sep,
      where ?v0.0 = "Num 1" and ?v1.0 = "Num 42" and a = 0 and r = 0 and c = 0 and w = Undefined]
  have one: "get_ref (snd (set_ref (snd (set_ref Memory_ref 0 0 0 0 0 (Num 1))) 0 0 0 5 5 (Num 42)))
      0 0 0 0 0 = Inr (Num 1)"
    by (rule conjunct1)
  define s1 where "s1 = snd (set_ref Memory_ref 0 0 0 1 2 (Num 6))"
  from set_ref_cases [OF b(5,6,7,8) sep, where v = "Num 6", folded s1_def]
  obtain s0 i where f1: "findNode_ref s1 0 0 0 = Some i"
    and n1: "rnodes s1 = rnodes s0"
    and sep1: "separate_rows s1 (rvalue (rnodes s0 ! i))"
    and new: "findNode_ref Memory_ref 0 0 0 = None \<longrightarrow>
           rnodes s0 = rnodes Memory_ref @
             [\<lparr>rxx = 0, ryy = 0, rzz = 0, rvalue = outer_next Memory_ref\<rparr>] \<and>
           rusedAddresses s0 = insert (generateAddress 0 0 0) (rusedAddresses Memory_ref) \<and>
           i = length (rnodes Memory_ref) \<and>
           grid_of s0 (outer_next Memory_ref) = replicate (nat 1 + 1) (replicate (nat 2 + 1) (Num 0))"
    by (elim exE conjE)
  from new f have a: "rvalue (rnodes s0 ! i) = 0"
    by (simp add: m)
  have sep': "\<forall>k. findNode_ref s1 0 0 0 = Some k \<longrightarrow> separate_rows s1 (rvalue (rnodes s1 ! k))"
    using sep1 by (simp add: f1 n1)
  from sep1 have alloc: "\<forall>p \<in> set (outer_arrays s1 0). p < row_next s1"
    by (simp add: a separate_rows_def)
  have g: "get_ref s1 0 0 0 1 2 = Inr (Num 6)"
    unfolding s1_def using b(5,6,7,8) by (rule set_ref_succeeds)
  have ne: "(1::int) \<noteq> 5 \<or> (2::int) \<noteq> 5" by simp
  note t = growth_preserves_separate_rows [OF b(1,2,1,2,3,4,3,4) gt sep',
      where r = 1 and c = 2 and w = "Num 6" and ?v0.0 = "Num 1" and ?v1.0 = "Num 42" and a = 0]
  from t [THEN conjunct2, THEN conjunct1] g ne
  have two: "get_ref (snd (set_ref s1 0 0 0 5 5 (Num 42))) 0 0 0 1 2 = Inr (Num 6)"
    by simp
  note u = t [THEN conjunct2, THEN conjunct2, THEN mp, OF alloc]
  from u have three: "fst (expandMatrixIfNeeded_ref s1 0 5 5) = Inr ()"
    by (rule conjunct1)
  from u have four: "prefix (outer_arrays s1 0) (outer_arrays (snd (expandMatrixIfNeeded_ref s1 0 5 5)) 0)"
    by (rule conjunct2 [THEN conjunct1])
  from one two three four show ?thesis
    unfolding s1_def by (intro conjI)
qed

text \<open>
  C1 as stated fails on the code, for a node whose matrix came from \<open>setMatrix\<close> with
  one row array at two positions: with \<open>const row = [0, 0]\<close>, after
  \<open>setMatrix(0, 0, 0, [row, row])\<close>, \<open>set(0, 0, 0, 0, 0, 5)\<close> and \<open>set(0, 0, 0, 1, 0, 9)\<close>,
  \<open>get(0, 0, 0, 0, 0)\<close> returns 9. The row and the matrix are the first arrays of the
  heap, both with reference 0 of their kind.
\<close>

theorem growth_shared_rows_counterexample:
  "fst (new_row Memory_ref [Num 0, Num 0]) = 0 \<and>
   fst (new_outer (snd (new_row Memory_ref [Num 0, Num 0])) [0, 0]) = 0 \<and>
   get_ref (snd (set_ref (snd (set_ref
       (snd (setMatrix_ref (snd (new_outer (snd (new_row Memory_ref [Num 0, Num 0])) [0, 0])) 0 0 0 0))
       0 0 0 0 0 (Num 5))) 0 0 0 1 0 (Num 9))) 0 0 0 0 0 = Inr (Num 9)"
proof -
  define s2 where "s2 = snd (new_outer (snd (new_row Memory_ref [Num 0, Num 0])) [0, 0])"
  define s3 where "s3 = snd (setMatrix_ref s2 0 0 0 0)"
  define s4 where "s4 = snd (set_ref s3 0 0 0 0 0 (Num 5))"
  define s5 where "s5 = snd (set_ref s4 0 0 0 1 0 (Num 9))"
  have s2: "rnodes s2 = []" "outer_arrays s2 0 = [0, 0]" "row_arrays s2 0 = [Num 0, Num 0]"
    by (simp_all add: s2_def new_outer_def new_row_def Memory_ref_def)
  have f2: "findNode_ref s2 0 0 0 = None"
    by (simp add: findNode_ref_def s2)
  have c3: "fst (createNodeIfNeeded_ref s2 0 0 0 2 2) = Inr 0"
    "rnodes (snd (createNodeIfNeeded_ref s2 0 0 0 2 2))
        = [\<lparr>rxx = 0, ryy = 0, rzz = 0, rvalue = outer_next s2\<rparr>]"
    "outer_arrays (snd (createNodeIfNeeded_ref s2 0 0 0 2 2)) 0 = [0, 0]"
    "row_arrays (snd (createNodeIfNeeded_ref s2 0 0 0 2 2)) 0 = [Num 0, Num 0]"
    using f2
    by (simp_all add: createNodeIfNeeded_ref_def new_grid_ref_def max_length_def new_rows_eq
          new_outer_def with_rows_def s2 s2_def new_row_def Memory_ref_def)
  have s3: "rnodes s3 = [\<lparr>rxx = 0, ryy = 0, rzz = 0, rvalue = 0\<rparr>]"
    "outer_arrays s3 0 = [0, 0]" "row_arrays s3 0 = [Num 0, Num 0]"
    using c3
    by (cases "createNodeIfNeeded_ref s2 0 0 0 2 2";
        simp add: s3_def setMatrix_ref_def s2 Let_def set_value_def)+
  have f3: "findNode_ref s3 0 0 0 = Some 0"
    by (simp add: findNode_ref_def s3)
  have e3: "expandMatrixIfNeeded_ref s3 0 0 0 = (Inr (), s3)"
    by (simp add: expandMatrixIfNeeded_ref_def s3 Let_def push_rows_ref.simps)
  have s4: "rnodes s4 = [\<lparr>rxx = 0, ryy = 0, rzz = 0, rvalue = 0\<rparr>]"
    "outer_arrays s4 0 = [0, 0]" "row_arrays s4 0 = [Num 5, Num 0]"
    by (simp_all add: s4_def set_ref_def f3 expand_and_store_ref_def s3 e3 store_cell_ref_def
          store_elem_def)
  have f4: "findNode_ref s4 0 0 0 = Some 0"
    by (simp add: findNode_ref_def s4)
  have e4: "expandMatrixIfNeeded_ref s4 0 1 0 = (Inr (), s4)"
    by (simp add: expandMatrixIfNeeded_ref_def s4 Let_def push_rows_ref.simps)
  have s5: "rnodes s5 = [\<lparr>rxx = 0, ryy = 0, rzz = 0, rvalue = 0\<rparr>]"
    "outer_arrays s5 0 = [0, 0]" "row_arrays s5 0 = [Num 9, Num 0]"
    by (simp_all add: s5_def set_ref_def f4 expand_and_store_ref_def s4 e4 store_cell_ref_def
          store_elem_def)
  have f5: "findNode_ref s5 0 0 0 = Some 0"
    by (simp add: findNode_ref_def s5)
  have "get_ref s5 0 0 0 0 0 = Inr (Num 9)"
    by (simp add: get_ref_def f5 s5 Let_def)
  then show ?thesis
    unfolding s5_def s4_def s3_def s2_def
    by (simp add: new_row_def new_outer_def Memory_ref_def)
qed



text \<open>
  C3. Round trip: for every address and every matrix \<open>M\<close> (rectangular or not),
  \<open>setMatrix(addr, M)\<close> succeeds and \<open>getAllData(addr)\<close> right after it returns \<open>M\<close>,
  whether or not a node existed at the address before.
\<close>

theorem setMatrix_getAllData_roundtrip:
  "fst (setMatrix s x y z M) = Inr () \<and>
   getAllData (snd (setMatrix s x y z M)) x y z = Inr M"
proof (cases "findNode s x y z")
  case None
  let ?s' = "s\<lparr>nodes := nodes s @ [\<lparr>xx = x, yy = y, zz = z, val = M\<rparr>],
               usedAddresses := insert (generateAddress x y z) (usedAddresses s)\<rparr>"
  have "findNode ?s' x y z = Some (length (nodes s))"
    using None by (rule findNode_appended)
  then have "getAllData ?s' x y z = Inr M"
    by (simp add: getAllData_def)
  then show ?thesis
    by (simp add: setMatrix_new [OF None])
next
  case (Some i)
  then have i: "i < length (nodes s)" by (simp add: findNode_Some)
  have "findNode (set_val s i M) x y z = Some i"
    using Some by (simp add: findNode_set_val)
  then have "getAllData (set_val s i M) x y z = Inr M"
    using i by (simp add: getAllData_def val_set_val_same)
  then show ?thesis
    by (simp add: setMatrix_existing [OF Some])
qed

theorem setMatrix_getAllData_roundtrip_witness:
  "fst (setMatrix Memory 0 0 0 [[Num 1, Num 2, Num 3], [Num 4, Num 5, Num 6]]) = Inr () \<and>
   getAllData (snd (setMatrix Memory 0 0 0 [[Num 1, Num 2, Num 3], [Num 4, Num 5, Num 6]])) 0 0 0
     = Inr [[Num 1, Num 2, Num 3], [Num 4, Num 5, Num 6]]"
  by (rule setMatrix_getAllData_roundtrip)

text \<open>
  C4, as amended. \<open>set\<close> with row and column indices that are array indices (from 0 to
  \<open>max_length - 1\<close>) never fails, and the cell then reads back the value. On an unused
  address the store gains one node, appended to \<open>nodes\<close> and registered in
  \<open>usedAddresses\<close>, whose grid is the zero grid of exactly \<open>row + 1\<close> rows and \<open>col + 1\<close>
  columns with the target cell written. On a used address whose node has separate rows,
  the node's grid is expanded and the target cell is then written into the expanded
  grid. Nothing is stated for other indices, which \<open>set\<close> does not check.
\<close>

theorem set_ref_array_indices:
  assumes r: "0 \<le> r" "r < max_length" and c: "0 \<le> c" "c < max_length"
  shows "fst (set_ref s x y z r c v) = Inr () \<and>
    get_ref (snd (set_ref s x y z r c v)) x y z r c = Inr v \<and>
    (findNode_ref s x y z = None \<longrightarrow>
       rnodes (snd (set_ref s x y z r c v)) =
         rnodes s @ [\<lparr>rxx = x, ryy = y, rzz = z, rvalue = outer_next s\<rparr>] \<and>
       rusedAddresses (snd (set_ref s x y z r c v)) =
         insert (generateAddress x y z) (rusedAddresses s) \<and>
       grid_of (snd (set_ref s x y z r c v)) (outer_next s) =
         (replicate (nat r + 1) (replicate (nat c + 1) (Num 0)))
           [nat r := (replicate (nat c + 1) (Num 0))[nat c := v]]) \<and>
    (findNode_ref s x y z = Some i \<and> separate_rows s (rvalue (rnodes s ! i)) \<longrightarrow>
       (\<exists>g' g''. expandMatrixIfNeeded (grid_of s (rvalue (rnodes s ! i))) r c = Inr g' \<and>
          store_cell g' r c v = Inr g'' \<and>
          grid_of (snd (set_ref s x y z r c v)) (rvalue (rnodes s ! i)) = g'' \<and>
          rnodes (snd (set_ref s x y z r c v)) = rnodes s \<and>
          rusedAddresses (snd (set_ref s x y z r c v)) = rusedAddresses s))"
proof (intro conjI impI)
  show "fst (set_ref s x y z r c v) = Inr ()"
    using r c by (rule set_ref_succeeds)
  show "get_ref (snd (set_ref s x y z r c v)) x y z r c = Inr v"
    using r c by (rule set_ref_succeeds)
next
  assume None: "findNode_ref s x y z = None"
  define s' where "s' = snd (set_ref s x y z r c v)"
  from None have sep: "\<forall>i. findNode_ref s x y z = Some i \<longrightarrow> separate_rows s (rvalue (rnodes s ! i))"
    by simp
  from set_ref_cases [OF r c sep, where v = v, folded s'_def]
  obtain s0 k g' g'' where e: "expandMatrixIfNeeded (grid_of s0 (rvalue (rnodes s0 ! k))) r c = Inr g'"
    and w: "store_cell g' r c v = Inr g''"
    and n: "rnodes s' = rnodes s0"
    and u: "rusedAddresses s' = rusedAddresses s0"
    and g: "grid_of s' (rvalue (rnodes s0 ! k)) = g''"
    and new: "findNode_ref s x y z = None \<longrightarrow>
           rnodes s0 = rnodes s @ [\<lparr>rxx = x, ryy = y, rzz = z, rvalue = outer_next s\<rparr>] \<and>
           rusedAddresses s0 = insert (generateAddress x y z) (rusedAddresses s) \<and>
           k = length (rnodes s) \<and>
           grid_of s0 (outer_next s) = replicate (nat r + 1) (replicate (nat c + 1) (Num 0))"
    by (elim exE conjE)
  from new None have n0: "rnodes s0 = rnodes s @ [\<lparr>rxx = x, ryy = y, rzz = z, rvalue = outer_next s\<rparr>]"
    and u0: "rusedAddresses s0 = insert (generateAddress x y z) (rusedAddresses s)"
    and k: "k = length (rnodes s)"
    and z: "grid_of s0 (outer_next s) = replicate (nat r + 1) (replicate (nat c + 1) (Num 0))"
    by simp_all
  have a: "rvalue (rnodes s0 ! k) = outer_next s"
    by (simp add: n0 k)
  show "rnodes s' = rnodes s @ [\<lparr>rxx = x, ryy = y, rzz = z, rvalue = outer_next s\<rparr>]"
    using n n0 by simp
  show "rusedAddresses s' = insert (generateAddress x y z) (rusedAddresses s)"
    using u u0 by simp
  have "g'' = (replicate (nat r + 1) (replicate (nat c + 1) (Num 0)))
           [nat r := (replicate (nat c + 1) (Num 0))[nat c := v]]"
    using r(1) c(1) e [unfolded a z] w by (rule write_zero_grid)
  with g show "grid_of s' (outer_next s) =
         (replicate (nat r + 1) (replicate (nat c + 1) (Num 0)))
           [nat r := (replicate (nat c + 1) (Num 0))[nat c := v]]"
    unfolding a by simp
next
  assume "findNode_ref s x y z = Some i \<and> separate_rows s (rvalue (rnodes s ! i))"
  then have Some: "findNode_ref s x y z = Some i"
    and sepi: "separate_rows s (rvalue (rnodes s ! i))" by simp_all
  define s' where "s' = snd (set_ref s x y z r c v)"
  from Some sepi have sep: "\<forall>i. findNode_ref s x y z = Some i \<longrightarrow> separate_rows s (rvalue (rnodes s ! i))"
    by simp
  from set_ref_cases [OF r c sep, where v = v, folded s'_def]
  obtain s0 k g' g'' where f0: "findNode_ref s0 x y z = Some k"
    and e: "expandMatrixIfNeeded (grid_of s0 (rvalue (rnodes s0 ! k))) r c = Inr g'"
    and w: "store_cell g' r c v = Inr g''"
    and n: "rnodes s' = rnodes s0"
    and u: "rusedAddresses s' = rusedAddresses s0"
    and g: "grid_of s' (rvalue (rnodes s0 ! k)) = g''"
    and same: "findNode_ref s x y z \<noteq> None \<longrightarrow> s0 = s"
    by (elim exE conjE)
  from same Some have s0: "s0 = s" by simp
  from f0 Some have k: "k = i" by (simp add: s0)
  from e w g n u
  show "\<exists>g' g''. expandMatrixIfNeeded (grid_of s (rvalue (rnodes s ! i))) r c = Inr g' \<and>
          store_cell g' r c v = Inr g'' \<and>
          grid_of s' (rvalue (rnodes s ! i)) = g'' \<and>
          rnodes s' = rnodes s \<and>
          rusedAddresses s' = rusedAddresses s"
    unfolding s0 k by (intro exI conjI)
qed

text \<open>
  The README's example, \<open>set(1, 2, 3, 5, 5, 42)\<close> on a new store: a 6 x 6 grid.
\<close>

theorem set_ref_array_indices_witness:
  "fst (set_ref Memory_ref 1 2 3 5 5 (Num 42)) = Inr () \<and>
   get_ref (snd (set_ref Memory_ref 1 2 3 5 5 (Num 42))) 1 2 3 5 5 = Inr (Num 42) \<and>
   grid_of (snd (set_ref Memory_ref 1 2 3 5 5 (Num 42))) 0 =
     [[Num 0, Num 0, Num 0, Num 0, Num 0, Num 0], [Num 0, Num 0, Num 0, Num 0, Num 0, Num 0],
      [Num 0, Num 0, Num 0, Num 0, Num 0, Num 0], [Num 0, Num 0, Num 0, Num 0, Num 0, Num 0],
      [Num 0, Num 0, Num 0, Num 0, Num 0, Num 0], [Num 0, Num 0, Num 0, Num 0, Num 0, Num 42]]"
proof -
  have f: "findNode_ref Memory_ref 1 2 3 = None"
    by (simp add: findNode_ref_def Memory_ref_def)
  have h: "(0::int) \<le> 5" "(5::int) < max_length"
    by (simp_all add: max_length_def)
  have o: "outer_next Memory_ref = 0"
    by (simp add: Memory_ref_def)
  note t = set_ref_array_indices [OF h h, where s = Memory_ref and x = 1 and y = 2 and z = 3
      and v = "Num 42" and i = 0]
  from t have a: "fst (set_ref Memory_ref 1 2 3 5 5 (Num 42)) = Inr ()"
    by (rule conjunct1)
  from t have b: "get_ref (snd (set_ref Memory_ref 1 2 3 5 5 (Num 42))) 1 2 3 5 5 = Inr (Num 42)"
    by (rule conjunct2 [THEN conjunct1])
  from t [THEN conjunct2, THEN conjunct2, THEN conjunct1, THEN mp, OF f]
  have "grid_of (snd (set_ref Memory_ref 1 2 3 5 5 (Num 42))) (outer_next Memory_ref) =
         (replicate (nat 5 + 1) (replicate (nat 5 + 1) (Num 0)))
           [nat 5 := (replicate (nat 5 + 1) (Num 0))[nat 5 := Num 42]]"
    by (elim conjE)
  then have d: "grid_of (snd (set_ref Memory_ref 1 2 3 5 5 (Num 42))) 0 =
     [[Num 0, Num 0, Num 0, Num 0, Num 0, Num 0], [Num 0, Num 0, Num 0, Num 0, Num 0, Num 0],
      [Num 0, Num 0, Num 0, Num 0, Num 0, Num 0], [Num 0, Num 0, Num 0, Num 0, Num 0, Num 0],
      [Num 0, Num 0, Num 0, Num 0, Num 0, Num 0], [Num 0, Num 0, Num 0, Num 0, Num 0, Num 42]]"
    by (simp add: o eval_nat_numeral)
  from a b d show ?thesis by (intro conjI)
qed

text \<open>
  C4 as stated fails on the code: \<open>set\<close> does not check its indices and the class has no
  InvalidArgument error. On a new store, \<open>set(0, 0, 0, 0, -1, 7)\<close> returns normally
  (the node is created with one empty row, and the assignment defines the property
  \<open>-1\<close> of that row), \<open>set(0, 0, 0, -1, 0, 7)\<close> ends in the TypeError of reading
  \<open>node.value[0].length\<close> on an empty grid, and \<open>set(0, 0, 0, 0, 4294967295, 1)\<close>, with
  non-negative indices, ends in the RangeError of \<open>Array(4294967296)\<close> and leaves the
  store without a node.
\<close>

theorem set_ref_counterexample:
  "fst (set_ref Memory_ref 0 0 0 0 (- 1) (Num 7)) = Inr () \<and>
   fst (set_ref Memory_ref 0 0 0 (- 1) 0 (Num 7)) = Inl TypeError \<and>
   set_ref Memory_ref 0 0 0 0 4294967295 (Num 1) = (Inl RangeError, Memory_ref)"
proof (intro conjI)
  have f: "findNode_ref Memory_ref 0 0 0 = None"
    by (simp add: findNode_ref_def Memory_ref_def)
  show "set_ref Memory_ref 0 0 0 0 4294967295 (Num 1) = (Inl RangeError, Memory_ref)"
    by (simp add: set_ref_def f createNodeIfNeeded_ref_def new_grid_ref_def max_length_def)
  define s0 where "s0 = snd (createNodeIfNeeded_ref Memory_ref 0 0 0 1 0)"
  have c0: "createNodeIfNeeded_ref Memory_ref 0 0 0 1 0 = (Inr 0, s0)"
    unfolding s0_def createNodeIfNeeded_ref_def f
    by (simp add: new_grid_ref_def max_length_def new_rows_eq new_outer_def with_rows_def
          Memory_ref_def)
  have s0: "rnodes s0 = [\<lparr>rxx = 0, ryy = 0, rzz = 0, rvalue = 0\<rparr>]" "outer_arrays s0 0 = [0]"
    "row_arrays s0 0 = []"
    unfolding s0_def createNodeIfNeeded_ref_def f
    by (simp_all add: new_grid_ref_def max_length_def new_rows_eq new_outer_def with_rows_def
          Memory_ref_def)
  have e0: "expandMatrixIfNeeded_ref s0 0 0 (- 1) = (Inr (), s0)"
    by (simp add: expandMatrixIfNeeded_ref_def s0 Let_def push_rows_ref.simps)
  show "fst (set_ref Memory_ref 0 0 0 0 (- 1) (Num 7)) = Inr ()"
    by (simp add: set_ref_def f c0 expand_and_store_ref_def s0 e0 store_cell_ref_def)
  define s1 where "s1 = snd (createNodeIfNeeded_ref Memory_ref 0 0 0 0 1)"
  have c1: "createNodeIfNeeded_ref Memory_ref 0 0 0 0 1 = (Inr 0, s1)"
    unfolding s1_def createNodeIfNeeded_ref_def f
    by (simp add: new_grid_ref_def new_outer_def Memory_ref_def)
  have s1: "rnodes s1 = [\<lparr>rxx = 0, ryy = 0, rzz = 0, rvalue = 0\<rparr>]" "outer_arrays s1 0 = []"
    unfolding s1_def createNodeIfNeeded_ref_def f
    by (simp_all add: new_grid_ref_def new_outer_def Memory_ref_def)
  have e1: "fst (expandMatrixIfNeeded_ref s1 0 (- 1) 0) = Inl TypeError"
    by (simp add: expandMatrixIfNeeded_ref_def s1 Let_def push_rows_ref.simps)
  show "fst (set_ref Memory_ref 0 0 0 (- 1) 0 (Num 7)) = Inl TypeError"
    using e1
    by (cases "expandMatrixIfNeeded_ref s1 0 (- 1) 0")
       (simp add: set_ref_def f c1 expand_and_store_ref_def s1 split: sum.splits)
qed




text \<open>
  C6. \<open>get\<close> fails with NotFound when no node exists at the address. When node \<open>i\<close>
  exists there, with grid \<open>g\<close>, it fails with IndexOutOfBounds exactly when the row index
  is outside \<open>[0, length g)\<close> or the column index is outside the addressed row, and it
  returns the stored cell otherwise. For a rectangular grid these bounds are the row
  count and the column count that \<open>getDimensions\<close> reports. The call leaves the store
  as it is.
\<close>

theorem get_outcomes:
  "(findNode s x y z = None \<longrightarrow> get s x y z r c = Inl NotFound) \<and>
   (findNode s x y z = Some i \<longrightarrow>
      (get s x y z r c = Inl IndexOutOfBounds \<longleftrightarrow>
         \<not> (0 \<le> r \<and> r < int (length (val (nodes s ! i))) \<and>
            0 \<le> c \<and> c < int (length (val (nodes s ! i) ! nat r)))) \<and>
      (0 \<le> r \<and> r < int (length (val (nodes s ! i))) \<and>
       0 \<le> c \<and> c < int (length (val (nodes s ! i) ! nat r)) \<longrightarrow>
         get s x y z r c = Inr (val (nodes s ! i) ! nat r ! nat c)) \<and>
      (rectangular (val (nodes s ! i)) \<longrightarrow>
         (get s x y z r c = Inl IndexOutOfBounds \<longleftrightarrow>
            \<not> (0 \<le> r \<and> r < int (fst (getDimensions s x y z)) \<and>
               0 \<le> c \<and> c < int (snd (getDimensions s x y z)))))) \<and>
   snd (exec s (OpGet x y z r c)) = s"
proof (intro conjI impI)
  assume "findNode s x y z = None"
  then show "get s x y z r c = Inl NotFound" by (simp add: get_def)
next
  assume f: "findNode s x y z = Some i"
  then show io: "get s x y z r c = Inl IndexOutOfBounds \<longleftrightarrow>
         \<not> (0 \<le> r \<and> r < int (length (val (nodes s ! i))) \<and>
            0 \<le> c \<and> c < int (length (val (nodes s ! i) ! nat r)))"
    by (simp add: get_def Let_def)
  assume rect: "rectangular (val (nodes s ! i))"
  show "get s x y z r c = Inl IndexOutOfBounds \<longleftrightarrow>
            \<not> (0 \<le> r \<and> r < int (fst (getDimensions s x y z)) \<and>
               0 \<le> c \<and> c < int (snd (getDimensions s x y z)))"
  proof (cases "0 \<le> r \<and> r < int (length (val (nodes s ! i)))")
    case True
    then have "nat r < length (val (nodes s ! i))" by (simp add: nat_less_iff)
    from getDimensions_rectangular [OF f rect this] show ?thesis
      unfolding io by simp
  next
    case False
    with f show ?thesis
      unfolding io by (auto simp: getDimensions_def Let_def)
  qed
next
  assume "findNode s x y z = Some i"
    and "0 \<le> r \<and> r < int (length (val (nodes s ! i))) \<and>
       0 \<le> c \<and> c < int (length (val (nodes s ! i) ! nat r))"
  then show "get s x y z r c = Inr (val (nodes s ! i) ! nat r ! nat c)"
    by (simp add: get_def Let_def)
next
  show "snd (exec s (OpGet x y z r c)) = s" by simp
qed

text \<open>The spec's example: a node of shape (3, 2).\<close>

theorem get_outcomes_witness:
  "get \<lparr>nodes = [\<lparr>xx = 0, yy = 0, zz = 0, val = [[Num 1, Num 2], [Num 3, Num 4], [Num 5, Num 6]]\<rparr>],
        usedAddresses = {''0,0,0''}\<rparr> 0 0 0 3 0 = Inl IndexOutOfBounds \<and>
   get \<lparr>nodes = [\<lparr>xx = 0, yy = 0, zz = 0, val = [[Num 1, Num 2], [Num 3, Num 4], [Num 5, Num 6]]\<rparr>],
        usedAddresses = {''0,0,0''}\<rparr> 0 0 0 0 2 = Inl IndexOutOfBounds \<and>
   get \<lparr>nodes = [\<lparr>xx = 0, yy = 0, zz = 0, val = [[Num 1, Num 2], [Num 3, Num 4], [Num 5, Num 6]]\<rparr>],
        usedAddresses = {''0,0,0''}\<rparr> 0 0 0 2 1 = Inr (Num 6) \<and>
   get \<lparr>nodes = [\<lparr>xx = 0, yy = 0, zz = 0, val = [[Num 1, Num 2], [Num 3, Num 4], [Num 5, Num 6]]\<rparr>],
        usedAddresses = {''0,0,0''}\<rparr> 1 0 0 2 1 = Inl NotFound"
proof -
  let ?s = "\<lparr>nodes = [\<lparr>xx = 0, yy = 0, zz = 0, val = [[Num 1, Num 2], [Num 3, Num 4], [Num 5, Num 6]]\<rparr>],
        usedAddresses = {''0,0,0''}\<rparr>"
  have f: "findNode ?s 0 0 0 = Some 0" "findNode ?s 1 0 0 = None"
    by (simp_all add: findNode_def)
  have r: "rectangular (val (nodes ?s ! 0))"
    by (simp add: rectangular_def)
  have d: "getDimensions ?s 0 0 0 = (3, 2)"
    by (simp add: getDimensions_def f)
  show ?thesis
    using get_outcomes [where s = ?s and x = 0 and y = 0 and z = 0 and i = 0 and r = 3 and c = 0]
      get_outcomes [where s = ?s and x = 0 and y = 0 and z = 0 and i = 0 and r = 0 and c = 2]
      get_outcomes [where s = ?s and x = 0 and y = 0 and z = 0 and i = 0 and r = 2 and c = 1]
      get_outcomes [where s = ?s and x = 1 and y = 0 and z = 0 and i = 0 and r = 2 and c = 1]
      f r d
    by simp
qed

text \<open>
  C7, as amended. \<open>getDimensions\<close> on an address without a node returns (0, 0); it
  returns normally in every case. The three reads \<open>get\<close>, \<open>getAllData\<close> and
  \<open>getDimensions\<close> leave the store as it is, so they create no node and register no
  address. In a store reached from the new one by any sequence of calls of the
  interface (the six documented operations and \<open>createNodeIfNeeded\<close>, the spec's
  \<open>createOrGet\<close>), a node exists at an address, and the address string is in
  \<open>usedAddresses\<close>, only if the sequence contains a \<open>set\<close>, a \<open>setMatrix\<close> or a direct
  \<open>createNodeIfNeeded\<close> on that address.
\<close>

theorem nodes_only_by_creating_calls:
  "(findNode s x y z = None \<longrightarrow> exec s (OpGetDimensions x y z) = (Inr (RDims 0 0), s)) \<and>
   (\<exists>rows cols. exec s (OpGetDimensions x y z) = (Inr (RDims rows cols), s)) \<and>
   snd (exec s (OpGet x y z r c)) = s \<and>
   snd (exec s (OpGetAllData x y z)) = s \<and>
   (findNode (run_calls Memory cs) x y z \<noteq> None \<or>
    generateAddress x y z \<in> usedAddresses (run_calls Memory cs) \<longrightarrow>
      (\<exists>row col v. Call (OpSet x y z row col v) \<in> set cs) \<or>
      (\<exists>m. Call (OpSetMatrix x y z m) \<in> set cs) \<or>
      (\<exists>rows cols. CallCreateNodeIfNeeded x y z rows cols \<in> set cs))"
proof (intro conjI impI)
  assume "findNode s x y z = None"
  then show "exec s (OpGetDimensions x y z) = (Inr (RDims 0 0), s)"
    by (simp add: getDimensions_def)
next
  show "\<exists>rows cols. exec s (OpGetDimensions x y z) = (Inr (RDims rows cols), s)"
    by (cases "getDimensions s x y z") simp
next
  assume a: "findNode (run_calls Memory cs) x y z \<noteq> None \<or>
    generateAddress x y z \<in> usedAddresses (run_calls Memory cs)"
  have "\<exists>c \<in> set cs. targets c x y z"
    using a
  proof
    assume "findNode (run_calls Memory cs) x y z \<noteq> None"
    from findNode_run_calls [OF this] show ?thesis
      by (simp add: findNode_def Memory_def)
  next
    assume "generateAddress x y z \<in> usedAddresses (run_calls Memory cs)"
    from usedAddresses_run_calls [OF this]
    obtain c x' y' z' where c: "c \<in> set cs" "targets c x' y' z'"
      and eq: "generateAddress x y z = generateAddress x' y' z'"
      by (auto simp: Memory_def)
    from generateAddress_inj [OF eq] c show ?thesis by auto
  qed
  then obtain c where c: "c \<in> set cs" "targets c x y z" by blast
  from targets_cases [OF c(2)] c(1)
  show "(\<exists>row col v. Call (OpSet x y z row col v) \<in> set cs) \<or>
      (\<exists>m. Call (OpSetMatrix x y z m) \<in> set cs) \<or>
      (\<exists>rows cols. CallCreateNodeIfNeeded x y z rows cols \<in> set cs)"
    by auto
qed simp_all

text \<open>Reads, a write to another address and a sweep: no node at (4, 5, 6).\<close>

theorem nodes_only_by_creating_calls_witness:
  "exec Memory (OpGetDimensions 4 5 6) = (Inr (RDims 0 0), Memory) \<and>
   findNode (run_calls Memory
      [Call (OpGetDimensions 4 5 6), Call (OpGet 4 5 6 0 0), Call (OpGetAllData 4 5 6),
       Call (OpSet 1 1 1 0 0 (Num 2)), Call OpUpdate]) 4 5 6 = None \<and>
   generateAddress 4 5 6 \<notin> usedAddresses (run_calls Memory
      [Call (OpGetDimensions 4 5 6), Call (OpGet 4 5 6 0 0), Call (OpGetAllData 4 5 6),
       Call (OpSet 1 1 1 0 0 (Num 2)), Call OpUpdate])"
proof -
  let ?cs = "[Call (OpGetDimensions 4 5 6), Call (OpGet 4 5 6 0 0), Call (OpGetAllData 4 5 6),
       Call (OpSet 1 1 1 0 0 (Num 2)), Call OpUpdate]"
  have f: "findNode Memory 4 5 6 = None"
    by (simp add: findNode_def Memory_def)
  note t = nodes_only_by_creating_calls [where s = Memory and x = 4 and y = 5 and z = 6
      and cs = ?cs and r = 0 and c = 0]
  from t f have a: "exec Memory (OpGetDimensions 4 5 6) = (Inr (RDims 0 0), Memory)"
    by blast
  have none: "\<not> ((\<exists>row col v. Call (OpSet 4 5 6 row col v) \<in> set ?cs) \<or>
      (\<exists>m. Call (OpSetMatrix 4 5 6 m) \<in> set ?cs) \<or>
      (\<exists>rows cols. CallCreateNodeIfNeeded 4 5 6 rows cols \<in> set ?cs))"
    by simp
  from t none have b: "findNode (run_calls Memory ?cs) 4 5 6 = None"
    and c: "generateAddress 4 5 6 \<notin> usedAddresses (run_calls Memory ?cs)"
    by blast+
  from a b c show ?thesis by (intro conjI)
qed

text \<open>
  C7 as stated fails on the code: \<open>createNodeIfNeeded(7, -8, 9, 2, 3)\<close> on a new store,
  with no \<open>set\<close> and no \<open>setMatrix\<close> before or after, creates the node with a 2 x 3 grid
  of zeros and registers the address.
\<close>

theorem nodes_only_by_writes_counterexample:
  "run_calls Memory [CallCreateNodeIfNeeded 7 (- 8) 9 2 3] =
     \<lparr>nodes = [\<lparr>xx = 7, yy = - 8, zz = 9, val = [[Num 0, Num 0, Num 0], [Num 0, Num 0, Num 0]]\<rparr>],
      usedAddresses = {''7,-8,9''}\<rparr> \<and>
   findNode (run_calls Memory [CallCreateNodeIfNeeded 7 (- 8) 9 2 3]) 7 (- 8) 9 = Some 0 \<and>
   generateAddress 7 (- 8) 9 \<in> usedAddresses (run_calls Memory [CallCreateNodeIfNeeded 7 (- 8) 9 2 3]) \<and>
   \<not> (\<exists>p. Call p \<in> set [CallCreateNodeIfNeeded 7 (- 8) 9 2 3])"
  by (simp add: createNodeIfNeeded_def findNode_def Memory_def new_grid_def generateAddress_def
        int_str_def nat_str.simps digit_char_def eval_nat_numeral)

text \<open>
  C8. Idempotent growth. For non-negative indices a second \<open>set\<close> with the same
  address, indices and value succeeds and leaves the store exactly as the first one
  left it: every grid shape and every cell. Expansion for a target inside the grid
  (a row of the grid, a column below the width of the first row) returns the grid
  unchanged.
\<close>

theorem set_cell_twice:
  assumes r: "0 \<le> r" and c: "0 \<le> c"
  shows "set_cell (snd (set_cell s x y z r c v)) x y z r c v = (Inr (), snd (set_cell s x y z r c v)) \<and>
    (nat r < length g \<and> c < int (length (g ! 0)) \<longrightarrow> expandMatrixIfNeeded g r c = Inr g)"
proof
  from set_cell_nonneg_cases [OF r c, of x y z v s]
  obtain s0 i g' g'' where f: "findNode s0 x y z = Some i"
    and e: "expandMatrixIfNeeded (val (nodes s0 ! i)) r c = Inr g'"
    and w: "store_cell g' r c v = Inr g''"
    and sc: "set_cell s x y z r c v = (Inr (), set_val s0 i g'')"
    by (elim exE conjE)
  define s1 where "s1 = set_val s0 i g''"
  from f have i: "i < length (nodes s0)" by (simp add: findNode_Some)
  then have i1: "i < length (nodes s1)" by (simp add: s1_def length_nodes_set_val)
  have f1: "findNode s1 x y z = Some i"
    unfolding s1_def using f by (simp add: findNode_set_val)
  have v1: "val (nodes s1 ! i) = g''"
    unfolding s1_def using i by (rule val_set_val_same)
  note again = write_again [OF e w c]
  have "set_cell s1 x y z r c v = (Inr (), set_val s1 i g'')"
    using f1 again unfolding v1 [symmetric] by (rule set_cell_existing_store)
  also have "set_val s1 i g'' = s1"
    using i1 v1 by (rule set_val_same)
  finally show "set_cell (snd (set_cell s x y z r c v)) x y z r c v = (Inr (), snd (set_cell s x y z r c v))"
    unfolding sc s1_def by simp
next
  show "nat r < length g \<and> c < int (length (g ! 0)) \<longrightarrow> expandMatrixIfNeeded g r c = Inr g"
    using r by (auto intro: expandMatrixIfNeeded_in_bounds)
qed

theorem set_cell_twice_witness:
  "set_cell (snd (set_cell Memory 1 2 3 5 5 (Num 42))) 1 2 3 5 5 (Num 42)
     = (Inr (), snd (set_cell Memory 1 2 3 5 5 (Num 42))) \<and>
   expandMatrixIfNeeded [[Num 1, Num 2, Num 3], [Num 4, Num 5, Num 6]] 1 2
     = Inr [[Num 1, Num 2, Num 3], [Num 4, Num 5, Num 6]]"
  using set_cell_twice [of 5 5 Memory 1 2 3 "Num 42" "[[Num 1, Num 2, Num 3], [Num 4, Num 5, Num 6]]"]
    set_cell_twice [of 1 2 Memory 1 2 3 "Num 42" "[[Num 1, Num 2, Num 3], [Num 4, Num 5, Num 6]]"]
  by simp

text \<open>
  C9. After \<open>update\<close> the store has the same nodes in the same order, each with its
  coordinates, its number of rows and the length of every row as before, and every
  cell is 1; the address set is as before. For the callers: \<open>getDimensions\<close> answers as
  before, and \<open>get\<close> returns 1 wherever it returned a value before and fails as before
  elsewhere. The assignments \<open>node.value[r][c] = 1\<close> that the loops of \<open>update\<close> execute
  are, in the order of their execution as the log of \<open>update_log\<close> records it, those of
  \<open>cells_row_major\<close>: the cells of the store, node after node in the order of \<open>nodes\<close>
  and row-major within each node. The logged loops return the store that \<open>update\<close>
  returns, which is also the result of the single assignments applied one by one in
  that order.
\<close>

theorem update_all_ones:
  "length (nodes (update s)) = length (nodes s) \<and>
   usedAddresses (update s) = usedAddresses s \<and>
   (\<forall>i<length (nodes s).
      xx (nodes (update s) ! i) = xx (nodes s ! i) \<and>
      yy (nodes (update s) ! i) = yy (nodes s ! i) \<and>
      zz (nodes (update s) ! i) = zz (nodes s ! i) \<and>
      length (val (nodes (update s) ! i)) = length (val (nodes s ! i)) \<and>
      (\<forall>r<length (val (nodes s ! i)).
         length (val (nodes (update s) ! i) ! r) = length (val (nodes s ! i) ! r) \<and>
         (\<forall>c<length (val (nodes s ! i) ! r). val (nodes (update s) ! i) ! r ! c = Num 1))) \<and>
   getDimensions (update s) x y z = getDimensions s x y z \<and>
   get (update s) x y z r c = (case get s x y z r c of Inl e \<Rightarrow> Inl e | Inr w \<Rightarrow> Inr (Num 1)) \<and>
   update_log s = (update s, cells_row_major s) \<and>
   update s = foldl assign_one s (cells_row_major s)"
proof (intro conjI allI impI)
  show "update_log s = (update s, cells_row_major s)"
    by (rule update_log_eq)
next
  show "update s = foldl assign_one s (cells_row_major s)"
    by (rule update_in_order)
next
  show "length (nodes (update s)) = length (nodes s)"
    and "usedAddresses (update s) = usedAddresses s"
    by (simp_all add: update_eq)
next
  fix i assume i: "i < length (nodes s)"
  then show "xx (nodes (update s) ! i) = xx (nodes s ! i)"
    and "yy (nodes (update s) ! i) = yy (nodes s ! i)"
    and "zz (nodes (update s) ! i) = zz (nodes s ! i)"
    and "length (val (nodes (update s) ! i)) = length (val (nodes s ! i))"
    by (simp_all add: update_eq)
  fix r assume r: "r < length (val (nodes s ! i))"
  with i show "length (val (nodes (update s) ! i) ! r) = length (val (nodes s ! i) ! r)"
    by (simp add: update_eq)
  fix c assume "c < length (val (nodes s ! i) ! r)"
  with i r show "val (nodes (update s) ! i) ! r ! c = Num 1"
    by (simp add: update_eq)
next
  show "getDimensions (update s) x y z = getDimensions s x y z"
  proof (cases "findNode s x y z")
    case None
    then show ?thesis by (simp add: getDimensions_def findNode_update)
  next
    case (Some i)
    then have "i < length (nodes s)" by (simp add: findNode_Some)
    with Some show ?thesis
      by (simp add: getDimensions_def findNode_update Let_def) (simp add: update_eq)
  qed
next
  show "get (update s) x y z r c = (case get s x y z r c of Inl e \<Rightarrow> Inl e | Inr w \<Rightarrow> Inr (Num 1))"
  proof (cases "findNode s x y z")
    case None
    then show ?thesis by (simp add: get_def findNode_update)
  next
    case (Some i)
    then have i: "i < length (nodes s)" by (simp add: findNode_Some)
    have v: "val (nodes (update s) ! i) = map (\<lambda>rw. replicate (length rw) (Num 1)) (val (nodes s ! i))"
      using i by (simp add: update_eq)
    show ?thesis
      using Some by (auto simp: get_def findNode_update Let_def v nat_less_iff)
  qed
qed

text \<open>Two nodes of different shapes, one of them ragged.\<close>

theorem update_all_ones_witness:
  "update \<lparr>nodes = [\<lparr>xx = 0, yy = 0, zz = 0, val = [[Num 1, Num 2, Num 3], [Num 4, Undefined]]\<rparr>,
                    \<lparr>xx = 0, yy = 1, zz = 2, val = [[Num 0], [Num 42]]\<rparr>],
           usedAddresses = {''0,0,0'', ''0,1,2''}\<rparr>
   = \<lparr>nodes = [\<lparr>xx = 0, yy = 0, zz = 0, val = [[Num 1, Num 1, Num 1], [Num 1, Num 1]]\<rparr>,
               \<lparr>xx = 0, yy = 1, zz = 2, val = [[Num 1], [Num 1]]\<rparr>],
      usedAddresses = {''0,0,0'', ''0,1,2''}\<rparr> \<and>
   get (update \<lparr>nodes = [\<lparr>xx = 0, yy = 0, zz = 0, val = [[Num 1, Num 2, Num 3], [Num 4, Undefined]]\<rparr>,
                    \<lparr>xx = 0, yy = 1, zz = 2, val = [[Num 0], [Num 42]]\<rparr>],
           usedAddresses = {''0,0,0'', ''0,1,2''}\<rparr>) 0 1 2 1 0 = Inr (Num 1) \<and>
   snd (update_log \<lparr>nodes = [\<lparr>xx = 0, yy = 0, zz = 0, val = [[Num 1, Num 2, Num 3], [Num 4, Undefined]]\<rparr>,
                    \<lparr>xx = 0, yy = 1, zz = 2, val = [[Num 0], [Num 42]]\<rparr>],
           usedAddresses = {''0,0,0'', ''0,1,2''}\<rparr>)
   = [(0, 0, 0), (0, 0, 1), (0, 0, 2), (0, 1, 0), (0, 1, 1), (1, 0, 0), (1, 1, 0)]"
proof -
  let ?s = "\<lparr>nodes = [\<lparr>xx = 0, yy = 0, zz = 0, val = [[Num 1, Num 2, Num 3], [Num 4, Undefined]]\<rparr>,
                    \<lparr>xx = 0, yy = 1, zz = 2, val = [[Num 0], [Num 42]]\<rparr>],
           usedAddresses = {''0,0,0'', ''0,1,2''}\<rparr>"
  have g: "get ?s 0 1 2 1 0 = Inr (Num 42)"
    by (simp add: get_def findNode_def)
  have u: "update ?s = \<lparr>nodes = [\<lparr>xx = 0, yy = 0, zz = 0, val = [[Num 1, Num 1, Num 1], [Num 1, Num 1]]\<rparr>,
               \<lparr>xx = 0, yy = 1, zz = 2, val = [[Num 1], [Num 1]]\<rparr>],
      usedAddresses = {''0,0,0'', ''0,1,2''}\<rparr>"
    by (simp add: update_eq eval_nat_numeral)
  note t = update_all_ones [where s = ?s and x = 0 and y = 1 and z = 2 and r = 1 and c = 0]
  from t have "get (update ?s) 0 1 2 1 0 =
      (case get ?s 0 1 2 1 0 of Inl e \<Rightarrow> Inl e | Inr w \<Rightarrow> Inr (Num 1))"
    by (elim conjE)
  with g have o: "get (update ?s) 0 1 2 1 0 = Inr (Num 1)" by simp
  have c: "cells_row_major ?s =
      [(0, 0, 0), (0, 0, 1), (0, 0, 2), (0, 1, 0), (0, 1, 1), (1, 0, 0), (1, 1, 0)]"
    by (simp add: cells_row_major_def upt_rec)
  from t have "update_log ?s = (update ?s, cells_row_major ?s)"
    by (elim conjE)
  then have l: "snd (update_log ?s) =
      [(0, 0, 0), (0, 0, 1), (0, 0, 2), (0, 1, 0), (0, 1, 1), (1, 0, 0), (1, 1, 0)]"
    by (simp only: c snd_conv)
  from u o l show ?thesis by (intro conjI)
qed

text \<open>
  C10. When a node exists at the address, \<open>createNodeIfNeeded\<close> (the spec's
  \<open>createOrGet\<close>) returns the reference of that node, whatever \<open>rows\<close> and \<open>cols\<close> are, and
  the store after the call is the store before it: nodes, their order, their grids and
  the address set.
\<close>

theorem createNodeIfNeeded_existing:
  "findNode s x y z = Some i \<Longrightarrow>
     createNodeIfNeeded s x y z rows cols = (Inr i, s) \<and>
     i < length (nodes s) \<and>
     xx (nodes s ! i) = x \<and> yy (nodes s ! i) = y \<and> zz (nodes s ! i) = z"
  by (simp add: createNodeIfNeeded_def findNode_Some)

theorem createNodeIfNeeded_existing_witness:
  "findNode \<lparr>nodes = [\<lparr>xx = 1, yy = 2, zz = 3, val = [[Num 7]]\<rparr>], usedAddresses = {''1,2,3''}\<rparr> 1 2 3
     = Some 0 \<and>
   createNodeIfNeeded \<lparr>nodes = [\<lparr>xx = 1, yy = 2, zz = 3, val = [[Num 7]]\<rparr>], usedAddresses = {''1,2,3''}\<rparr>
       1 2 3 5 (- 4)
     = (Inr 0, \<lparr>nodes = [\<lparr>xx = 1, yy = 2, zz = 3, val = [[Num 7]]\<rparr>], usedAddresses = {''1,2,3''}\<rparr>)"
proof -
  have h: "findNode \<lparr>nodes = [\<lparr>xx = 1, yy = 2, zz = 3, val = [[Num 7]]\<rparr>], usedAddresses = {''1,2,3''}\<rparr> 1 2 3
     = Some 0"
    by (simp add: findNode_def)
  show ?thesis
    using h createNodeIfNeeded_existing [OF h, of 5 "- 4"] by simp
qed

end
